theory Spec2Isabelle
  imports Main
begin

section \<open>The graph model of kl.py\<close>

text \<open>
  The program builds a graph of \<^verbatim>\<open>Vertex\<close> and \<^verbatim>\<open>Edge\<close> objects and
  bisects it with the Kernighan-Lin heuristic. Python lists hold references to mutable
  objects, so the model keeps two stores: the graph's vertex list and the graph's edge
  list. A reference to a vertex or to an edge is its position in the store, which is the
  identity of the object: two positions are two objects, as they are for the objects
  \<^verbatim>\<open>read_netlist\<close> creates (one \<^verbatim>\<open>Vertex\<close> per new id, one
  \<^verbatim>\<open>Edge\<close> per line).

  Field names follow the source, except \<^verbatim>\<open>Vertex.id\<close>, written \<open>v_id\<close>, and
  \<^verbatim>\<open>Vertex.edges\<close>, written \<open>v_edges\<close> (\<open>edges\<close> is the field of the graph).
\<close>

datatype label = A | B

datatype error = KeyError int | IndexError

record Edge =
  left_id :: int
  right_id :: int
  left_v :: nat
  right_v :: nat

record Vertex =
  v_id :: int
  v_edges :: "nat list"
  partition_label :: "label option"

record Graph =
  vertices :: "Vertex list"
  edges :: "Edge list"

text \<open>\<^verbatim>\<open>Vertex.__init__\<close>: no edges, label \<^verbatim>\<open>None\<close>.\<close>

definition Vertex_init :: "int \<Rightarrow> Vertex" where
  "Vertex_init i = \<lparr>v_id = i, v_edges = [], partition_label = None\<rparr>"

text \<open>
  \<^verbatim>\<open>Vertex.add_edge\<close>: the edge is appended unless the vertex already holds an edge
  whose left id is the new edge's right id and whose right id is the new edge's left id.
  The first argument is the edge store, where the ids of the referenced edges are read.
\<close>

definition add_edge :: "Edge list \<Rightarrow> Vertex \<Rightarrow> nat \<Rightarrow> Vertex" where
  "add_edge E self edge =
     (if \<not> list_ex (\<lambda>e. left_id (E ! e) = right_id (E ! edge) \<and>
                         right_id (E ! e) = left_id (E ! edge)) (v_edges self)
      then self\<lparr>v_edges := v_edges self @ [edge]\<rparr>
      else self)"

text \<open>
  The dictionary \<^verbatim>\<open>{v.id: v for v in self.vertices}\<close>: a later vertex with the same
  id replaces an earlier one.
\<close>

definition vertex_dict :: "Vertex list \<Rightarrow> (int \<rightharpoonup> nat)" where
  "vertex_dict V = fold (\<lambda>i m. m(v_id (V ! i) \<mapsto> i)) [0..<length V] Map.empty"

text \<open>
  The body of the loop of \<^verbatim>\<open>Graph.__init__\<close> once both lookups have succeeded.
  An edge \<^verbatim>\<open>Edge(l, r)\<close> enters the edge store when the loop reaches it, with both
  endpoints resolved; until then its \<^verbatim>\<open>left_v\<close> and \<^verbatim>\<open>right_v\<close> are
  \<^verbatim>\<open>None\<close> and nothing reads it. The second \<^verbatim>\<open>add_edge\<close> sees the effect of
  the first, which matters when both ends are the same vertex.
\<close>

definition link_edge :: "Graph \<Rightarrow> int \<Rightarrow> int \<Rightarrow> nat \<Rightarrow> nat \<Rightarrow> Graph" where
  "link_edge g l r lv rv =
     (let edge = length (edges g);
          E = edges g @ [\<lparr>left_id = l, right_id = r, left_v = lv, right_v = rv\<rparr>];
          V1 = (vertices g)[lv := add_edge E (vertices g ! lv) edge];
          V2 = V1[rv := add_edge E (V1 ! rv) edge]
      in \<lparr>vertices = V2, edges = E\<rparr>)"

text \<open>
  The loop over the edges. A missing key raises \<^verbatim>\<open>KeyError\<close>, the left endpoint
  first.
\<close>

fun link_edges :: "(int \<rightharpoonup> nat) \<Rightarrow> (int \<times> int) list \<Rightarrow> Graph \<Rightarrow> error + Graph" where
  "link_edges d [] g = Inr g"
| "link_edges d ((l, r) # es) g =
     (case d l of
        None \<Rightarrow> Inl (KeyError l)
      | Some lv \<Rightarrow>
         (case d r of
            None \<Rightarrow> Inl (KeyError r)
          | Some rv \<Rightarrow> link_edges d es (link_edge g l r lv rv)))"

text \<open>
  \<^verbatim>\<open>Graph.__init__\<close> on fresh objects: \<open>vs\<close> are the ids of the vertices
  \<^verbatim>\<open>Vertex(id)\<close>, \<open>es\<close> the id pairs of the edges \<^verbatim>\<open>Edge(left_id, right_id)\<close>.
\<close>

definition Graph_init :: "int list \<Rightarrow> (int \<times> int) list \<Rightarrow> error + Graph" where
  "Graph_init vs es =
     (let V = map Vertex_init vs
      in link_edges (vertex_dict V) es \<lparr>vertices = V, edges = []\<rparr>)"

text \<open>\<^verbatim>\<open>Graph.get_partition_cost\<close>: the edges whose endpoints carry different labels.\<close>

definition get_partition_cost :: "Graph \<Rightarrow> int" where
  "get_partition_cost g =
     int (length (filter (\<lambda>edge. partition_label (vertices g ! left_v edge) \<noteq>
                                  partition_label (vertices g ! right_v edge)) (edges g)))"

text \<open>\<^verbatim>\<open>Vertex.get_D_value\<close>, with the graph as the store the references are read in.\<close>

definition get_D_value :: "Graph \<Rightarrow> Vertex \<Rightarrow> int" where
  "get_D_value g self =
     sum_list (map (\<lambda>e.
        let edge = edges g ! e;
            other_v = vertices g ! (if right_id edge = v_id self then left_v edge
                                    else right_v edge)
        in if partition_label other_v \<noteq> partition_label self then 1 else - 1)
       (v_edges self))"

section \<open>The Kernighan-Lin pass\<close>

text \<open>
  The first loop of \<^verbatim>\<open>partition\<close>: for \<open>i < half\<close>, vertex \<open>i\<close> gets label A and
  vertex \<open>i + half\<close> gets label B. Both indices are below \<open>2 * half \<le> n\<close>.
\<close>

definition set_label :: "label \<Rightarrow> Vertex \<Rightarrow> Vertex" where
  "set_label l v = v\<lparr>partition_label := Some l\<rparr>"

definition bisect_step :: "nat \<Rightarrow> nat \<Rightarrow> Vertex list \<Rightarrow> Vertex list" where
  "bisect_step half i V =
     (let V1 = V[i := set_label A (V ! i)]
      in V1[i + half := set_label B (V1 ! (i + half))])"

definition initial_bisection :: "Graph \<Rightarrow> Graph" where
  "initial_bisection g =
     (let half = length (vertices g) div 2
      in g\<lparr>vertices := fold (bisect_step half) [0..<half] (vertices g)\<rparr>)"

text \<open>
  \<^verbatim>\<open>[v for v in self.graph.vertices if v.partition_label == l]\<close>, as references in
  the order of the vertex list.
\<close>

definition group_refs :: "label \<Rightarrow> Graph \<Rightarrow> nat list" where
  "group_refs l g =
     filter (\<lambda>v. partition_label (vertices g ! v) = Some l) [0..<length (vertices g)]"

text \<open>\<^verbatim>\<open>{v.id: v.get_D_value() for v in self.graph.vertices}\<close>.\<close>

definition D_values :: "Graph \<Rightarrow> (int \<rightharpoonup> int)" where
  "D_values g = fold (\<lambda>v m. m(v_id v \<mapsto> get_D_value g v)) (vertices g) Map.empty"

text \<open>
  \<^verbatim>\<open>len(set(x.edges).intersection(y.edges))\<close>: \<^verbatim>\<open>Edge\<close> defines no equality, so
  the sets compare edges by identity.
\<close>

definition common_edges :: "Graph \<Rightarrow> nat \<Rightarrow> nat \<Rightarrow> int" where
  "common_edges g x y =
     int (card (set (v_edges (vertices g ! x)) \<inter> set (v_edges (vertices g ! y))))"

text \<open>
  The gain of a pair and the candidate list: group A in the outer loop, group B in the
  inner one. Every key looked up in \<open>D\<close> is the id of a vertex of the graph, and
  these are the keys of the table (lemma \<open>D_values_dom\<close>).
\<close>

definition gain :: "Graph \<Rightarrow> (int \<rightharpoonup> int) \<Rightarrow> nat \<Rightarrow> nat \<Rightarrow> int" where
  "gain g D a b =
     the (D (v_id (vertices g ! a))) + the (D (v_id (vertices g ! b)))
       - 2 * common_edges g a b"

definition gains :: "Graph \<Rightarrow> (int \<rightharpoonup> int) \<Rightarrow> nat list \<Rightarrow> nat list \<Rightarrow> ((nat \<times> nat) \<times> int) list" where
  "gains g D group_a group_b =
     concat (map (\<lambda>a. map (\<lambda>b. ((a, b), gain g D a b)) group_b) group_a)"

text \<open>
  \<^verbatim>\<open>sorted(gains, key=lambda x: x[1], reverse=True)\<close>: Python's sort is stable, also
  with \<^verbatim>\<open>reverse=True\<close>, so this is the stable sort by descending gain.
\<close>

definition sorted_gains :: "((nat \<times> nat) \<times> int) list \<Rightarrow> ((nat \<times> nat) \<times> int) list" where
  "sorted_gains gs = sort_key (\<lambda>x. - snd x) gs"

text \<open>
  The local variables of one pass of the outer loop after line 204: the graph with the
  two labels flipped, the two groups without the pair, the table of D values, the pair
  and its gain.
\<close>

record swap =
  s_graph :: Graph
  s_group_a :: "nat list"
  s_group_b :: "nat list"
  s_D_values :: "int \<rightharpoonup> int"
  s_pair :: "nat \<times> nat"
  s_max_gain :: int

text \<open>Lines 203 and 204: the first vertex of the pair gets label B, the second label A.\<close>

definition swap_labels :: "Graph \<Rightarrow> nat \<times> nat \<Rightarrow> Graph" where
  "swap_labels g pair =
     (let V1 = (vertices g)[fst pair := set_label B (vertices g ! fst pair)];
          V2 = V1[snd pair := set_label A (V1 ! snd pair)]
      in g\<lparr>vertices := V2\<rparr>)"

text \<open>
  Lines 180 to 204. \<^verbatim>\<open>gains[0]\<close> raises \<^verbatim>\<open>IndexError\<close> on an empty candidate
  list; \<open>None\<close> is the \<^verbatim>\<open>break\<close>. The pair removed from the two group lists is
  a member of each, so \<^verbatim>\<open>list.remove\<close> does not raise.
\<close>

definition select_swap :: "Graph \<Rightarrow> error + swap option" where
  "select_swap g =
     (let group_a = group_refs A g;
          group_b = group_refs B g;
          D = D_values g
      in case sorted_gains (gains g D group_a group_b) of
           [] \<Rightarrow> Inl IndexError
         | (pair, max_gain) # _ \<Rightarrow>
             if max_gain \<le> 0 then Inr None
             else Inr (Some \<lparr>s_graph = swap_labels g pair,
                             s_group_a = remove1 (fst pair) group_a,
                             s_group_b = remove1 (snd pair) group_b,
                             s_D_values = D,
                             s_pair = pair,
                             s_max_gain = max_gain\<rparr>))"

text \<open>Lines 207 to 215: the two loops that adjust the D values after the swap.\<close>

definition update_D_values :: "swap \<Rightarrow> (int \<rightharpoonup> int)" where
  "update_D_values s =
     (let g = s_graph s; p0 = fst (s_pair s); p1 = snd (s_pair s);
          D1 = fold (\<lambda>x D. D(v_id (vertices g ! x) \<mapsto>
                       the (D (v_id (vertices g ! x)))
                         + (2 * common_edges g x p0 - 2 * common_edges g x p1)))
                 (s_group_a s) (s_D_values s)
      in fold (\<lambda>y D. D(v_id (vertices g ! y) \<mapsto>
                  the (D (v_id (vertices g ! y)))
                    + (2 * common_edges g y p1 - 2 * common_edges g y p0)))
            (s_group_b s) D1)"

text \<open>
  What the outer loop carries from one pass to the next: the graph, \<^verbatim>\<open>total_gain\<close>
  and the variable \<^verbatim>\<open>D_values\<close> (unbound before the first pass, here the empty map).
\<close>

record kl_state =
  graph :: Graph
  total_gain :: int
  D_vals :: "int \<rightharpoonup> int"

text \<open>
  One pass of the outer loop; \<open>None\<close> is the \<^verbatim>\<open>break\<close>, after which nothing
  reads \<^verbatim>\<open>D_values\<close> or \<^verbatim>\<open>total_gain\<close> again.
\<close>

definition iteration :: "kl_state \<Rightarrow> error + kl_state option" where
  "iteration st =
     (case select_swap (graph st) of
        Inl e \<Rightarrow> Inl e
      | Inr None \<Rightarrow> Inr None
      | Inr (Some s) \<Rightarrow>
          Inr (Some \<lparr>graph = s_graph s,
                     total_gain = total_gain st + s_max_gain s,
                     D_vals = update_D_values s\<rparr>))"

text \<open>\<^verbatim>\<open>for _ in range(half)\<close>: at most \<open>k\<close> passes, ended early by the break.\<close>

fun outer_loop :: "nat \<Rightarrow> kl_state \<Rightarrow> error + kl_state" where
  "outer_loop 0 st = Inr st"
| "outer_loop (Suc k) st =
     (case iteration st of
        Inl e \<Rightarrow> Inl e
      | Inr None \<Rightarrow> Inr st
      | Inr (Some st') \<Rightarrow> outer_loop k st')"

text \<open>\<^verbatim>\<open>str\<close> of an integer.\<close>

fun str_nat :: "nat \<Rightarrow> string" where
  "str_nat n =
     (if n < 10 then [''0123456789'' ! n]
      else str_nat (n div 10) @ [''0123456789'' ! (n mod 10)])"

declare str_nat.simps [simp del]

definition str :: "int \<Rightarrow> string" where
  "str i = (if i < 0 then CHR ''-'' # str_nat (nat (- i)) else str_nat (nat i))"

text \<open>
  \<^verbatim>\<open>KernighanLin.partition\<close>, written \<open>partition_kl\<close> (\<open>partition\<close> is a
  function of the list library). \<open>partition_state\<close> is the state the loop ends in,
  whose graph is the one the caller is left with; \<open>partition_kl\<close> is the returned
  triple. The three \<^verbatim>\<open>print\<close> calls are not modelled.
\<close>

definition group_ids :: "label \<Rightarrow> Graph \<Rightarrow> int list" where
  "group_ids l g = map v_id (filter (\<lambda>v. partition_label v = Some l) (vertices g))"

definition initial_state :: "Graph \<Rightarrow> kl_state" where
  "initial_state g = \<lparr>graph = initial_bisection g, total_gain = 0, D_vals = Map.empty\<rparr>"

definition partition_state :: "Graph \<Rightarrow> error + kl_state" where
  "partition_state g = outer_loop (length (vertices g) div 2) (initial_state g)"

definition partition_kl :: "Graph \<Rightarrow> error + (string \<times> int list \<times> int list)" where
  "partition_kl g =
     (case partition_state g of
        Inl e \<Rightarrow> Inl e
      | Inr st \<Rightarrow>
          Inr (str (get_partition_cost (graph st)),
               group_ids A (graph st), group_ids B (graph st)))"

text \<open>
  The vertex list \<^verbatim>\<open>read_netlist\<close> builds from the lines of the file, each line
  already split into its two integers: the ids in the order they are first seen.
\<close>

definition seen_vertices :: "(int \<times> int) list \<Rightarrow> int list" where
  "seen_vertices es =
     fold (\<lambda>(left_id, right_id) vs.
             let vs1 = (if left_id \<notin> set vs then vs @ [left_id] else vs)
             in if right_id \<notin> set vs1 then vs1 @ [right_id] else vs1) es []"

text \<open>
  \<^verbatim>\<open>KernighanLin(Graph(vertices, edges)).partition()\<close>, as the main block runs it
  on the graph it has read.
\<close>

definition kl_run :: "int list \<Rightarrow> (int \<times> int) list \<Rightarrow> error + (string \<times> int list \<times> int list)" where
  "kl_run vs es = (case Graph_init vs es of Inl e \<Rightarrow> Inl e | Inr g \<Rightarrow> partition_kl g)"

subsection \<open>The passes of the outer loop, one by one\<close>

text \<open>
  \<open>outer_trace k st\<close> lists the state at the end of every pass the loop enters, in
  order: the state after the swap, or the unchanged state for the pass that breaks. Its
  length is the number of passes entered.
\<close>

fun outer_trace :: "nat \<Rightarrow> kl_state \<Rightarrow> kl_state list" where
  "outer_trace 0 st = []"
| "outer_trace (Suc k) st =
     (case iteration st of
        Inl e \<Rightarrow> []
      | Inr None \<Rightarrow> [st]
      | Inr (Some st') \<Rightarrow> st' # outer_trace k st')"

definition pass_costs :: "Graph \<Rightarrow> int list" where
  "pass_costs g =
     map (\<lambda>st. get_partition_cost (graph st))
       (initial_state g # outer_trace (length (vertices g) div 2) (initial_state g))"

subsection \<open>The pass without the update of the D values\<close>

text \<open>
  The same loop with lines 206 to 215 removed: \<^verbatim>\<open>D_values\<close> keeps the table built
  at line 182.
\<close>

definition iteration_no_update :: "kl_state \<Rightarrow> error + kl_state option" where
  "iteration_no_update st =
     (case select_swap (graph st) of
        Inl e \<Rightarrow> Inl e
      | Inr None \<Rightarrow> Inr None
      | Inr (Some s) \<Rightarrow>
          Inr (Some \<lparr>graph = s_graph s,
                     total_gain = total_gain st + s_max_gain s,
                     D_vals = s_D_values s\<rparr>))"

fun outer_loop_no_update :: "nat \<Rightarrow> kl_state \<Rightarrow> error + kl_state" where
  "outer_loop_no_update 0 st = Inr st"
| "outer_loop_no_update (Suc k) st =
     (case iteration_no_update st of
        Inl e \<Rightarrow> Inl e
      | Inr None \<Rightarrow> Inr st
      | Inr (Some st') \<Rightarrow> outer_loop_no_update k st')"

definition partition_no_update :: "Graph \<Rightarrow> error + (string \<times> int list \<times> int list)" where
  "partition_no_update g =
     (case outer_loop_no_update (length (vertices g) div 2) (initial_state g) of
        Inl e \<Rightarrow> Inl e
      | Inr st \<Rightarrow>
          Inr (str (get_partition_cost (graph st)),
               group_ids A (graph st), group_ids B (graph st)))"

subsection \<open>Well-formed graphs\<close>

text \<open>
  The predicates below are used to state what holds of the run on a well-formed input;
  they are not functions of the program. An input is well formed when the vertex ids are
  distinct, every edge joins two ids of the vertex list, and no edge of the list is the
  reverse of an edge of the list (so no edge joins a vertex to itself).
\<close>

definition wf_input :: "int list \<Rightarrow> (int \<times> int) list \<Rightarrow> bool" where
  "wf_input vs es \<longleftrightarrow>
     distinct vs \<and> (\<forall>(l, r) \<in> set es. l \<in> set vs \<and> r \<in> set vs \<and> (r, l) \<notin> set es)"

text \<open>The pair of ids of an edge.\<close>

definition edge_ids :: "Edge \<Rightarrow> int \<times> int" where
  "edge_ids e = (left_id e, right_id e)"

text \<open>
  In a well-formed graph the ids are distinct, every edge refers to the two different
  vertices that carry its ids, and the adjacency list of a vertex holds the edges at the
  vertex, each once, in the order of the edge list.
\<close>

definition incident :: "nat \<Rightarrow> Edge \<Rightarrow> bool" where
  "incident v e \<longleftrightarrow> left_v e = v \<or> right_v e = v"

definition wf_graph :: "Graph \<Rightarrow> bool" where
  "wf_graph g \<longleftrightarrow>
     distinct (map v_id (vertices g)) \<and>
     (\<forall>e \<in> set (edges g).
        left_v e < length (vertices g) \<and> right_v e < length (vertices g) \<and>
        left_v e \<noteq> right_v e \<and>
        v_id (vertices g ! left_v e) = left_id e \<and>
        v_id (vertices g ! right_v e) = right_id e) \<and>
     (\<forall>v < length (vertices g).
        v_edges (vertices g ! v)
          = filter (\<lambda>j. incident v (edges g ! j)) [0..<length (edges g)])"

text \<open>Every vertex carries a label; and, with that, both groups have \<open>h\<close> vertices.\<close>

definition labelled :: "Graph \<Rightarrow> bool" where
  "labelled g \<longleftrightarrow> (\<forall>v \<in> set (vertices g). partition_label v \<noteq> None)"

definition kl_inv :: "Graph \<Rightarrow> bool" where
  "kl_inv g \<longleftrightarrow> wf_graph g \<and> labelled g"

definition balanced :: "nat \<Rightarrow> Graph \<Rightarrow> bool" where
  "balanced h g \<longleftrightarrow>
     labelled g \<and> length (group_refs A g) = h \<and> length (group_refs B g) = h"

text \<open>
  What one edge contributes to the D value of vertex \<open>v\<close>, to the cut cost, and to
  the number of edges between \<open>a\<close> and \<open>b\<close>.
\<close>

definition d_term :: "Vertex list \<Rightarrow> nat \<Rightarrow> Edge \<Rightarrow> int" where
  "d_term V v e =
     (if incident v e
      then (if partition_label (V ! (if right_v e = v then left_v e else right_v e))
                \<noteq> partition_label (V ! v) then 1 else - 1)
      else 0)"

definition cut_term :: "Vertex list \<Rightarrow> Edge \<Rightarrow> int" where
  "cut_term V e =
     (if partition_label (V ! left_v e) \<noteq> partition_label (V ! right_v e) then 1 else 0)"

definition c_term :: "nat \<Rightarrow> nat \<Rightarrow> Edge \<Rightarrow> int" where
  "c_term a b e = (if incident a e \<and> incident b e then 1 else 0)"

subsection \<open>Sample graphs\<close>

text \<open>The 4-cycle \<^verbatim>\<open>1-2, 2-3, 3-4, 4-1\<close> as \<open>Graph_init\<close> builds it.\<close>

definition cycle4 :: Graph where
  "cycle4 =
     \<lparr>vertices =
        [\<lparr>v_id = 1, v_edges = [0, 3], partition_label = None\<rparr>,
         \<lparr>v_id = 2, v_edges = [0, 1], partition_label = None\<rparr>,
         \<lparr>v_id = 3, v_edges = [1, 2], partition_label = None\<rparr>,
         \<lparr>v_id = 4, v_edges = [2, 3], partition_label = None\<rparr>],
      edges =
        [\<lparr>left_id = 1, right_id = 2, left_v = 0, right_v = 1\<rparr>,
         \<lparr>left_id = 2, right_id = 3, left_v = 1, right_v = 2\<rparr>,
         \<lparr>left_id = 3, right_id = 4, left_v = 2, right_v = 3\<rparr>,
         \<lparr>left_id = 4, right_id = 1, left_v = 3, right_v = 0\<rparr>]\<rparr>"

text \<open>A graph with the labels of its vertices replaced by the labels of a list.\<close>

definition with_labels :: "Graph \<Rightarrow> label list \<Rightarrow> Graph" where
  "with_labels g ls = g\<lparr>vertices := map (\<lambda>(v, l). set_label l v) (zip (vertices g) ls)\<rparr>"

text \<open>The path \<^verbatim>\<open>1-2, 2-3\<close> on three vertices.\<close>

definition path3 :: Graph where
  "path3 =
     \<lparr>vertices =
        [\<lparr>v_id = 1, v_edges = [0], partition_label = None\<rparr>,
         \<lparr>v_id = 2, v_edges = [0, 1], partition_label = None\<rparr>,
         \<lparr>v_id = 3, v_edges = [1], partition_label = None\<rparr>],
      edges =
        [\<lparr>left_id = 1, right_id = 2, left_v = 0, right_v = 1\<rparr>,
         \<lparr>left_id = 2, right_id = 3, left_v = 1, right_v = 2\<rparr>]\<rparr>"

text \<open>
  Nine vertices, read from the lines \<^verbatim>\<open>1 2, 3 4, 4 5, 3 6, 3 7, 7 8, 2 8, 8 9, 1 9\<close>.
\<close>

definition lines9 :: "(int \<times> int) list" where
  "lines9 = [(1, 2), (3, 4), (4, 5), (3, 6), (3, 7), (7, 8), (2, 8), (8, 9), (1, 9)]"

text \<open>Two disjoint edges \<^verbatim>\<open>1-3, 2-4\<close> on the vertex list 1, 2, 3, 4.\<close>

definition ties4 :: Graph where
  "ties4 =
     \<lparr>vertices =
        [\<lparr>v_id = 1, v_edges = [0], partition_label = None\<rparr>,
         \<lparr>v_id = 2, v_edges = [1], partition_label = None\<rparr>,
         \<lparr>v_id = 3, v_edges = [0], partition_label = None\<rparr>,
         \<lparr>v_id = 4, v_edges = [1], partition_label = None\<rparr>],
      edges =
        [\<lparr>left_id = 1, right_id = 3, left_v = 0, right_v = 2\<rparr>,
         \<lparr>left_id = 2, right_id = 4, left_v = 1, right_v = 3\<rparr>]\<rparr>"

section \<open>Dictionaries built by a loop\<close>

text \<open>
  A dictionary filled key by key is the association list of its entries read from the
  last to the first: a later entry for a key hides an earlier one.
\<close>

lemma fold_upd_map_of:
  assumes "\<And>i m. F i m = m(f i \<mapsto> h i)"
  shows "fold F xs m = m ++ map_of (rev (map (\<lambda>i. (f i, h i)) xs))"
proof (induction xs arbitrary: m)
  case Nil
  show ?case by simp
next
  case (Cons x xs)
  have "fold F (x # xs) m = fold F xs (m(f x \<mapsto> h x))" by (simp add: assms)
  also have "\<dots> = m(f x \<mapsto> h x) ++ map_of (rev (map (\<lambda>i. (f i, h i)) xs))"
    by (rule Cons.IH)
  also have "\<dots> = m ++ map_of (rev (map (\<lambda>i. (f i, h i)) (x # xs)))"
    by simp
  finally show ?case .
qed

lemma vertex_dict_map_of:
  "vertex_dict V = map_of (rev (map (\<lambda>i. (v_id (V ! i), i)) [0..<length V]))"
  unfolding vertex_dict_def by (subst fold_upd_map_of [where f = "\<lambda>i. v_id (V ! i)" and h = "\<lambda>i. i"]) simp_all

lemma map_v_id_nth: "map (\<lambda>i. f (V ! i)) [0..<length V] = map f V"
  by (rule nth_equalityI) simp_all

lemma vertex_dict_dom: "dom (vertex_dict V) = v_id ` set V"
proof -
  have "dom (vertex_dict V) = fst ` set (map (\<lambda>i. (v_id (V ! i), i)) [0..<length V])"
    unfolding vertex_dict_map_of dom_map_of_conv_image_fst by simp
  also have "\<dots> = set (map (\<lambda>i. v_id (V ! i)) [0..<length V])"
    by (simp add: image_image)
  also have "\<dots> = v_id ` set V"
    by (simp only: map_v_id_nth set_map)
  finally show ?thesis .
qed

lemma vertex_dict_Some:
  assumes "vertex_dict V x = Some i"
  shows "i < length V \<and> v_id (V ! i) = x"
proof -
  from assms have "(x, i) \<in> set (rev (map (\<lambda>i. (v_id (V ! i), i)) [0..<length V]))"
    unfolding vertex_dict_map_of by (rule map_of_SomeD)
  then show ?thesis by auto
qed

lemma D_values_map_of:
  "D_values g = map_of (rev (map (\<lambda>v. (v_id v, get_D_value g v)) (vertices g)))"
  unfolding D_values_def
  by (subst fold_upd_map_of [where f = v_id and h = "get_D_value g"]) simp_all

lemma D_values_dom: "dom (D_values g) = v_id ` set (vertices g)"
  by (simp add: D_values_map_of dom_map_of_conv_image_fst image_image)

section \<open>Construction of the graph\<close>

lemma link_edges_KeyError:
  "(l, r) \<in> set es \<Longrightarrow> d l = None \<or> d r = None \<Longrightarrow>
   \<exists>k. d k = None \<and> link_edges d es g = Inl (KeyError k)"
proof (induction es arbitrary: g)
  case Nil
  then show ?case by simp
next
  case (Cons e es)
  obtain l' r' where e: "e = (l', r')" by (cases e)
  show ?case
  proof (cases "d l'")
    case None
    then show ?thesis by (simp add: e)
  next
    case l': (Some lv)
    show ?thesis
    proof (cases "d r'")
      case None
      with l' show ?thesis by (simp add: e)
    next
      case r': (Some rv)
      from l' r' have g': "link_edges d (e # es) g = link_edges d es (link_edge g l' r' lv rv)"
        by (simp add: e)
      from Cons.prems l' r' have "(l, r) \<in> set es" by (auto simp: e)
      from Cons.IH [OF this Cons.prems(2), of "link_edge g l' r' lv rv"] show ?thesis
        by (simp only: g')
    qed
  qed
qed

lemma link_edges_Inr:
  "(\<And>l r. (l, r) \<in> set es \<Longrightarrow> d l \<noteq> None \<and> d r \<noteq> None) \<Longrightarrow>
   \<exists>g'. link_edges d es g = Inr g'"
proof (induction es arbitrary: g)
  case Nil
  then show ?case by simp
next
  case (Cons e es)
  obtain l' r' where e: "e = (l', r')" by (cases e)
  from Cons.prems [of l' r'] obtain lv rv where "d l' = Some lv" "d r' = Some rv"
    by (auto simp: e)
  then have g': "link_edges d (e # es) g = link_edges d es (link_edge g l' r' lv rv)"
    by (simp add: e)
  have "\<exists>g''. link_edges d es (link_edge g l' r' lv rv) = Inr g''"
    by (rule Cons.IH) (use Cons.prems in auto)
  then show ?case by (simp only: g')
qed

lemma vertex_dict_init_None: "vertex_dict (map Vertex_init vs) k = None \<longleftrightarrow> k \<notin> set vs"
proof -
  have "dom (vertex_dict (map Vertex_init vs)) = set vs"
    by (simp add: vertex_dict_dom image_image Vertex_init_def)
  then show ?thesis by (auto simp: domIff)
qed

text \<open>
  The construction succeeds when every edge joins two ids of the vertex list.
\<close>

theorem Graph_init_succeeds:
  assumes "\<And>l r. (l, r) \<in> set es \<Longrightarrow> l \<in> set vs \<and> r \<in> set vs"
  shows "\<exists>g. Graph_init vs es = Inr g"
  unfolding Graph_init_def Let_def
  by (rule link_edges_Inr) (use assms in \<open>simp add: vertex_dict_init_None\<close>)

text \<open>
  C9, as claimed, fails: for the vertex list [1] and the edge (1,2) the construction
  raises \<^verbatim>\<open>KeyError(2)\<close>, the exception of the dictionary lookup
  \<^verbatim>\<open>vertex_dict[edge.right_id]\<close>. The source defines no exception named
  UnknownVertexError and makes no check of its own.
\<close>

theorem unknown_vertex_KeyError_counterexample:
  "Graph_init [1] [(1, 2)] = Inl (KeyError 2)"
  by code_simp

text \<open>
  C9, amended. When some edge of the list names an id that is not in the vertex list, the
  construction fails with \<^verbatim>\<open>KeyError\<close>, carrying an id that is missing from the
  vertex list: \<open>Graph_init\<close> returns that error and no graph.
\<close>

theorem unknown_vertex_raises:
  assumes "(l, r) \<in> set es" and "l \<notin> set vs \<or> r \<notin> set vs"
  shows "\<exists>k. k \<notin> set vs \<and> Graph_init vs es = Inl (KeyError k)"
proof -
  let ?d = "vertex_dict (map Vertex_init vs)"
  from assms(2) have "?d l = None \<or> ?d r = None" by (simp add: vertex_dict_init_None)
  from link_edges_KeyError [OF assms(1) this] show ?thesis
    by (simp add: Graph_init_def Let_def vertex_dict_init_None)
qed

theorem unknown_vertex_raises_witness:
  "(1, 2) \<in> set [(1, 2)] \<and> (2::int) \<notin> set [1]
   \<and> (\<exists>k. k \<notin> set [1] \<and> Graph_init [1] [(1, 2)] = Inl (KeyError k))"
  using unknown_vertex_raises [of 1 2 "[(1, 2)]" "[1]"] by simp

section \<open>The update of the D values\<close>

lemma iteration_no_update_rel:
  "graph st = graph st' \<Longrightarrow> total_gain st = total_gain st' \<Longrightarrow>
   (case iteration st of
      Inl e \<Rightarrow> iteration_no_update st' = Inl e
    | Inr None \<Rightarrow> iteration_no_update st' = Inr None
    | Inr (Some s) \<Rightarrow> (\<exists>s'. iteration_no_update st' = Inr (Some s') \<and> graph s = graph s'
         \<and> total_gain s = total_gain s'))"
  by (simp add: iteration_def iteration_no_update_def split: sum.splits option.splits)

lemma outer_loop_no_update_rel:
  "graph st = graph st' \<Longrightarrow> total_gain st = total_gain st' \<Longrightarrow>
   map_sum id (\<lambda>s. (graph s, total_gain s)) (outer_loop_no_update k st')
   = map_sum id (\<lambda>s. (graph s, total_gain s)) (outer_loop k st)"
proof (induction k arbitrary: st st')
  case 0
  then show ?case by simp
next
  case (Suc k)
  show ?case
  proof (cases "iteration st")
    case (Inl e)
    with iteration_no_update_rel [OF Suc.prems] show ?thesis by simp
  next
    case (Inr r)
    show ?thesis
    proof (cases r)
      case None
      with Inr iteration_no_update_rel [OF Suc.prems] Suc.prems show ?thesis by simp
    next
      case (Some s)
      with Inr iteration_no_update_rel [OF Suc.prems] obtain s' where
        s': "iteration_no_update st' = Inr (Some s')" "graph s = graph s'"
            "total_gain s = total_gain s'" by auto
      from Suc.IH [OF s'(2,3)] show ?thesis by (simp add: Inr Some s'(1))
    qed
  qed
qed

text \<open>
  C10. The loop without lines 206 to 215 returns what \<^verbatim>\<open>partition\<close> returns, for
  every graph: the same cut size and the same two groups, or the same exception. The
  table the two loops update is rebuilt at line 182 before it is read again.
\<close>

theorem update_of_D_values_unobservable:
  "partition_no_update g = partition_kl g"
proof -
  have "map_sum id (\<lambda>s. (graph s, total_gain s))
          (outer_loop_no_update (length (vertices g) div 2) (initial_state g))
        = map_sum id (\<lambda>s. (graph s, total_gain s))
          (outer_loop (length (vertices g) div 2) (initial_state g))"
    by (rule outer_loop_no_update_rel) simp_all
  then show ?thesis
    by (auto simp: partition_no_update_def partition_kl_def partition_state_def
        split: sum.splits)
qed

section \<open>The selected pair\<close>

lemma filter_Cons_find: "filter P xs = y # ys \<Longrightarrow> find P xs = Some y"
  by (induction xs) (auto split: if_splits)

lemma sort_key_head:
  assumes "sort_key f xs = y # ys"
  shows "(\<forall>x \<in> set xs. f y \<le> f x) \<and> find (\<lambda>x. f x = f y) xs = Some y"
proof
  have "sorted (map f (y # ys))" using sorted_sort_key [of f xs] by (simp only: assms)
  moreover have "set xs = set (y # ys)" using set_sort [of f xs] by (simp only: assms)
  ultimately show "\<forall>x \<in> set xs. f y \<le> f x" by auto
  have "filter (\<lambda>x. f x = f y) xs = filter (\<lambda>x. f x = f y) (y # ys)"
    using sort_key_stable [of f "f y" xs] by (simp only: assms)
  then have "filter (\<lambda>x. f x = f y) xs = y # filter (\<lambda>x. f x = f y) ys" by simp
  then show "find (\<lambda>x. f x = f y) xs = Some y" by (rule filter_Cons_find)
qed

lemma sorted_gains_head:
  assumes "sorted_gains gs = (p, m) # rest"
  shows "(\<forall>x \<in> set gs. snd x \<le> m) \<and> find (\<lambda>x. snd x = m) gs = Some (p, m)"
  using sort_key_head [of "\<lambda>x. - snd x" gs "(p, m)" rest] assms
  by (simp add: sorted_gains_def)

lemma select_swap_SomeD:
  assumes "select_swap g = Inr (Some s)"
  shows "\<exists>rest. sorted_gains (gains g (D_values g) (group_refs A g) (group_refs B g))
           = (s_pair s, s_max_gain s) # rest"
    and "0 < s_max_gain s"
    and "s_graph s = swap_labels g (s_pair s)"
    and "s_D_values s = D_values g"
    and "s_group_a s = remove1 (fst (s_pair s)) (group_refs A g)"
    and "s_group_b s = remove1 (snd (s_pair s)) (group_refs B g)"
  using assms
  by (auto simp: select_swap_def Let_def split: list.splits if_splits)

text \<open>
  C6. In a pass that swaps, the candidates are listed with group A in the outer loop and
  group B in the inner one, both in the order of the vertex list; no candidate has a
  larger gain than the selected pair, the selected pair is the first candidate of the
  list with that gain, and it is the pair whose labels are flipped.
\<close>

theorem selected_pair_is_first_maximum:
  assumes "select_swap g = Inr (Some s)"
  shows "gains g (D_values g) (group_refs A g) (group_refs B g)
           = concat (map (\<lambda>a. map (\<lambda>b. ((a, b), gain g (D_values g) a b))
               (filter (\<lambda>v. partition_label (vertices g ! v) = Some B) [0..<length (vertices g)]))
               (filter (\<lambda>v. partition_label (vertices g ! v) = Some A) [0..<length (vertices g)]))
     \<and> list_all (\<lambda>x. snd x \<le> s_max_gain s) (gains g (D_values g) (group_refs A g) (group_refs B g))
     \<and> find (\<lambda>x. snd x = s_max_gain s) (gains g (D_values g) (group_refs A g) (group_refs B g))
         = Some (s_pair s, s_max_gain s)
     \<and> s_graph s = swap_labels g (s_pair s)"
proof -
  from select_swap_SomeD(1) [OF assms] obtain rest where
    "sorted_gains (gains g (D_values g) (group_refs A g) (group_refs B g))
       = (s_pair s, s_max_gain s) # rest" ..
  from sorted_gains_head [OF this] select_swap_SomeD(3) [OF assms] show ?thesis
    by (simp add: gains_def group_refs_def list_all_iff)
qed

theorem selected_pair_is_first_maximum_witness:
  "\<exists>s. select_swap (initial_bisection ties4) = Inr (Some s)
     \<and> s_pair s = (0, 3) \<and> s_max_gain s = 2
     \<and> gains (initial_bisection ties4) (D_values (initial_bisection ties4))
          (group_refs A (initial_bisection ties4)) (group_refs B (initial_bisection ties4))
        = [((0, 2), 0), ((0, 3), 2), ((1, 2), 2), ((1, 3), 0)]
     \<and> find (\<lambda>x. snd x = s_max_gain s)
          (gains (initial_bisection ties4) (D_values (initial_bisection ties4))
            (group_refs A (initial_bisection ties4)) (group_refs B (initial_bisection ties4)))
        = Some (s_pair s, s_max_gain s)
     \<and> s_graph s = swap_labels (initial_bisection ties4) (s_pair s)"
proof -
  have "case select_swap (initial_bisection ties4) of Inr (Some s) \<Rightarrow> True | _ \<Rightarrow> False"
    by code_simp
  then obtain s where s: "select_swap (initial_bisection ties4) = Inr (Some s)"
    by (auto split: sum.splits option.splits)
  have "map_sum id (map_option (\<lambda>s. (s_pair s, s_max_gain s)))
          (select_swap (initial_bisection ties4)) = Inr (Some ((0, 3), 2))"
    by code_simp
  with s have v: "s_pair s = (0, 3)" "s_max_gain s = 2" by simp_all
  have gs: "gains (initial_bisection ties4) (D_values (initial_bisection ties4))
          (group_refs A (initial_bisection ties4)) (group_refs B (initial_bisection ties4))
        = [((0, 2), 0), ((0, 3), 2), ((1, 2), 2), ((1, 3), 0)]"
    by code_simp
  from selected_pair_is_first_maximum [OF s] s v gs show ?thesis by blast
qed

section \<open>The outer loop returns\<close>

lemma bisect_step_length [simp]: "length (bisect_step h i V) = length V"
  by (simp add: bisect_step_def Let_def)

lemma bisect_step_nth:
  "0 < h \<Longrightarrow> j < length V \<Longrightarrow>
   bisect_step h i V ! j =
     (if j = i + h then set_label B (V ! j) else if j = i then set_label A (V ! j) else V ! j)"
  by (simp add: bisect_step_def Let_def nth_list_update)

lemma fold_bisect_length [simp]: "length (fold (bisect_step h) [0..<k] V) = length V"
  by (induction k) simp_all

lemma fold_bisect_nth:
  "k \<le> h \<Longrightarrow> j < length V \<Longrightarrow>
   fold (bisect_step h) [0..<k] V ! j =
     (if j < k then set_label A (V ! j)
      else if h \<le> j \<and> j < h + k then set_label B (V ! j) else V ! j)"
proof (induction k)
  case 0
  then show ?case by auto
next
  case (Suc k)
  then have h: "0 < h" and k: "k \<le> h" by simp_all
  from Suc.prems(2) have j: "j < length (fold (bisect_step h) [0..<k] V)" by simp
  show ?case
    using Suc.IH [OF k Suc.prems(2)] Suc.prems
    by (simp add: bisect_step_nth [OF h j]) (auto simp: set_label_def)
qed

lemma initial_bisection_length [simp]:
  "length (vertices (initial_bisection g)) = length (vertices g)"
  by (simp add: initial_bisection_def Let_def)

lemma initial_bisection_nth:
  assumes "j < length (vertices g)"
  shows "vertices (initial_bisection g) ! j =
     (if j < length (vertices g) div 2 then set_label A (vertices g ! j)
      else if j < 2 * (length (vertices g) div 2) then set_label B (vertices g ! j)
      else vertices g ! j)"
  using fold_bisect_nth [OF le_refl assms, of "length (vertices g) div 2"]
  by (simp add: initial_bisection_def Let_def)

lemma initial_bisection_edges [simp]: "edges (initial_bisection g) = edges g"
  by (simp add: initial_bisection_def Let_def)

lemma group_refs_iff:
  "v \<in> set (group_refs l g) \<longleftrightarrow>
   v < length (vertices g) \<and> partition_label (vertices g ! v) = Some l"
  by (auto simp: group_refs_def)

lemma initial_bisection_groups:
  assumes "2 \<le> length (vertices g)"
  shows "group_refs A (initial_bisection g) \<noteq> []" and "group_refs B (initial_bisection g) \<noteq> []"
proof -
  let ?h = "length (vertices g) div 2"
  from assms have h: "0 < ?h" by simp
  from assms have 0: "0 < length (vertices g)" by linarith
  from h 0 have "0 \<in> set (group_refs A (initial_bisection g))"
    by (simp add: group_refs_iff initial_bisection_nth [OF 0] set_label_def)
  then show "group_refs A (initial_bisection g) \<noteq> []" by auto
  from h have hn: "?h < length (vertices g)" by simp
  from h hn have "?h \<in> set (group_refs B (initial_bisection g))"
    by (simp add: group_refs_iff initial_bisection_nth [OF hn] set_label_def)
  then show "group_refs B (initial_bisection g) \<noteq> []" by auto
qed

lemma gains_set:
  "((a, b), m) \<in> set (gains g D ga gb) \<longleftrightarrow> a \<in> set ga \<and> b \<in> set gb \<and> m = gain g D a b"
  by (auto simp: gains_def)

lemma gains_Nil_iff: "gains g D ga gb = [] \<longleftrightarrow> ga = [] \<or> gb = []"
  by (cases ga; cases gb) (simp_all add: gains_def)

lemma sorted_gains_Nil_iff [simp]: "sorted_gains gs = [] \<longleftrightarrow> gs = []"
  using length_sort [of "\<lambda>x. - snd x" gs] by (auto simp: sorted_gains_def simp del: length_sort)

lemma select_swap_no_error:
  assumes "group_refs A g \<noteq> []" and "group_refs B g \<noteq> []"
  shows "select_swap g \<noteq> Inl e"
proof -
  from assms have "sorted_gains (gains g (D_values g) (group_refs A g) (group_refs B g)) \<noteq> []"
    by (simp add: gains_Nil_iff)
  then show ?thesis
    by (auto simp: select_swap_def Let_def split: list.splits)
qed

lemma select_swap_pair:
  assumes "select_swap g = Inr (Some s)"
  shows "fst (s_pair s) \<in> set (group_refs A g)" and "snd (s_pair s) \<in> set (group_refs B g)"
    and "s_max_gain s = gain g (D_values g) (fst (s_pair s)) (snd (s_pair s))"
proof -
  from select_swap_SomeD(1) [OF assms] obtain rest where
    r: "sorted_gains (gains g (D_values g) (group_refs A g) (group_refs B g))
       = (s_pair s, s_max_gain s) # rest" ..
  have "set (sorted_gains (gains g (D_values g) (group_refs A g) (group_refs B g)))
        = set (gains g (D_values g) (group_refs A g) (group_refs B g))"
    by (simp add: sorted_gains_def)
  with r have "(s_pair s, s_max_gain s) \<in> set (gains g (D_values g) (group_refs A g) (group_refs B g))"
    by (metis list.set_intros(1))
  then have "((fst (s_pair s), snd (s_pair s)), s_max_gain s)
      \<in> set (gains g (D_values g) (group_refs A g) (group_refs B g))" by simp
  then show "fst (s_pair s) \<in> set (group_refs A g)" and "snd (s_pair s) \<in> set (group_refs B g)"
    and "s_max_gain s = gain g (D_values g) (fst (s_pair s)) (snd (s_pair s))"
    unfolding gains_set by simp_all
qed

lemma swap_labels_length [simp]: "length (vertices (swap_labels g p)) = length (vertices g)"
  by (simp add: swap_labels_def Let_def)

lemma swap_labels_edges [simp]: "edges (swap_labels g p) = edges g"
  by (simp add: swap_labels_def Let_def)

lemma swap_labels_nth:
  assumes "j < length (vertices g)" and "a \<noteq> b"
  shows "vertices (swap_labels g (a, b)) ! j =
     (if j = b then set_label A (vertices g ! j)
      else if j = a then set_label B (vertices g ! j) else vertices g ! j)"
  using assms by (simp add: swap_labels_def Let_def nth_list_update)

lemma select_swap_groups:
  assumes "select_swap g = Inr (Some s)"
  shows "group_refs A (s_graph s) \<noteq> []" and "group_refs B (s_graph s) \<noteq> []"
proof -
  obtain a b where p: "s_pair s = (a, b)" by (cases "s_pair s")
  from select_swap_pair(1,2) [OF assms] have
    a: "a < length (vertices g)" "partition_label (vertices g ! a) = Some A" and
    b: "b < length (vertices g)" "partition_label (vertices g ! b) = Some B"
    by (simp_all add: p group_refs_iff)
  then have ab: "a \<noteq> b" by auto
  have g': "s_graph s = swap_labels g (a, b)"
    using select_swap_SomeD(3) [OF assms] by (simp add: p)
  have "b \<in> set (group_refs A (s_graph s))"
    using b(1) by (simp add: group_refs_iff g' swap_labels_nth [OF b(1) ab] set_label_def)
  then show "group_refs A (s_graph s) \<noteq> []" by auto
  have "a \<in> set (group_refs B (s_graph s))"
    using a(1) ab by (simp add: group_refs_iff g' swap_labels_nth [OF a(1) ab] set_label_def)
  then show "group_refs B (s_graph s) \<noteq> []" by auto
qed

lemma outer_loop_returns:
  assumes "group_refs A (graph st) \<noteq> []" and "group_refs B (graph st) \<noteq> []"
  shows "\<exists>st'. outer_loop k st = Inr st'"
  using assms
proof (induction k arbitrary: st)
  case 0
  show ?case by simp
next
  case (Suc k)
  show ?case
  proof (cases "select_swap (graph st)")
    case (Inl e)
    with select_swap_no_error [OF Suc.prems, of e] show ?thesis by simp
  next
    case (Inr r)
    show ?thesis
    proof (cases r)
      case None
      with Inr show ?thesis by (simp add: iteration_def)
    next
      case (Some s)
      with Inr have s: "select_swap (graph st) = Inr (Some s)" by simp
      let ?st' = "\<lparr>graph = s_graph s, total_gain = total_gain st + s_max_gain s,
                    D_vals = update_D_values s\<rparr>"
      have "\<exists>st''. outer_loop k ?st' = Inr st''"
        by (rule Suc.IH) (simp_all add: select_swap_groups [OF s])
      then show ?thesis by (simp add: iteration_def s)
    qed
  qed
qed

lemma outer_trace_length: "length (outer_trace k st) \<le> k"
proof (induction k arbitrary: st)
  case 0
  show ?case by simp
next
  case (Suc k)
  show ?case
  proof (cases "iteration st")
    case (Inl e)
    then show ?thesis by simp
  next
    case (Inr r)
    then show ?thesis using Suc.IH by (cases r) simp_all
  qed
qed

lemma iteration_cases:
  obtains (error) e where "select_swap (graph st) = Inl e" "iteration st = Inl e"
  | (break) "select_swap (graph st) = Inr None" "iteration st = Inr None"
  | (swap) s where "select_swap (graph st) = Inr (Some s)"
      "iteration st = Inr (Some \<lparr>graph = s_graph s, total_gain = total_gain st + s_max_gain s,
                                  D_vals = update_D_values s\<rparr>)"
proof (cases "select_swap (graph st)")
  case (Inl e)
  then show ?thesis by (intro error [of e]) (simp_all add: iteration_def)
next
  case (Inr r)
  show ?thesis
  proof (cases r)
    case None
    with Inr show ?thesis by (intro break) (simp_all add: iteration_def)
  next
    case (Some s)
    with Inr show ?thesis by (intro swap [of s]) (simp_all add: iteration_def)
  qed
qed

lemma outer_loop_last:
  assumes "outer_loop k st = Inr st'"
  shows "st' = last (st # outer_trace k st)"
  using assms
proof (induction k arbitrary: st)
  case 0
  then show ?case by simp
next
  case (Suc k)
  show ?case
  proof (cases st rule: iteration_cases)
    case (error e)
    with Suc.prems show ?thesis by simp
  next
    case break
    with Suc.prems show ?thesis by simp
  next
    case (swap s)
    with Suc.prems Suc.IH show ?thesis by simp
  qed
qed

lemma partition_state_returns: "\<exists>st. partition_state g = Inr st"
proof (cases "2 \<le> length (vertices g)")
  case True
  show ?thesis unfolding partition_state_def
    by (rule outer_loop_returns) (simp_all add: initial_state_def initial_bisection_groups [OF True])
next
  case False
  then have "length (vertices g) div 2 = 0" by simp
  then show ?thesis by (simp add: partition_state_def)
qed

text \<open>
  C8. For every graph, \<^verbatim>\<open>partition\<close> returns (no pass raises: the candidate list
  is never empty, because both groups keep at least one vertex). The state the loop
  ends in is the last entry of the list of the passes it entered with the budget
  \<open>length (vertices g) div 2\<close>, that list has at most \<open>length (vertices g) div 2\<close>
  entries, and the returned triple is read from that state.
\<close>

theorem outer_loop_bounded:
  "\<exists>st. partition_state g = Inr st
     \<and> st = last (initial_state g
                  # outer_trace (length (vertices g) div 2) (initial_state g))
     \<and> length (outer_trace (length (vertices g) div 2) (initial_state g))
         \<le> length (vertices g) div 2
     \<and> partition_kl g = Inr (str (get_partition_cost (graph st)),
                             group_ids A (graph st), group_ids B (graph st))"
proof -
  from partition_state_returns [of g] obtain st where st: "partition_state g = Inr st" ..
  then have "st = last (initial_state g
                  # outer_trace (length (vertices g) div 2) (initial_state g))"
    unfolding partition_state_def by (rule outer_loop_last)
  moreover have "length (outer_trace (length (vertices g) div 2) (initial_state g))
         \<le> length (vertices g) div 2"
    by (rule outer_trace_length)
  moreover from st have "partition_kl g = Inr (str (get_partition_cost (graph st)),
                             group_ids A (graph st), group_ids B (graph st))"
    by (simp add: partition_kl_def)
  ultimately show ?thesis using st by blast
qed

section \<open>The run on a well-formed input\<close>

text \<open>
  On a well-formed input with an even number of vertices, the gain of every swap the loop
  makes is the fall of the cut cost, the cut cost never rises, and the two groups keep
  half of the vertices each. The scenarios at the end show that each of these fails when
  the number of vertices is odd or an edge is listed with its reverse.
\<close>

subsection \<open>D values, common edges and cut cost as sums over the edge list\<close>

lemma length_filter_sum: "int (length (filter P xs)) = (\<Sum>x\<leftarrow>xs. if P x then 1 else 0)"
  by (induction xs) simp_all

lemma sum_list_map_cong:
  "(\<And>x. x \<in> set xs \<Longrightarrow> f x = h x) \<Longrightarrow> sum_list (map f xs) = sum_list (map h xs)"
  by (induction xs) simp_all

lemma sum_list_index:
  "(\<Sum>j\<leftarrow>[0..<length E]. f (E ! j)) = (\<Sum>e\<leftarrow>E. f e)"
  by (simp add: map_v_id_nth)

lemma wf_graph_right_id:
  assumes "wf_graph g" and "e \<in> set (edges g)" and "v < length (vertices g)"
  shows "right_id e = v_id (vertices g ! v) \<longleftrightarrow> right_v e = v"
proof -
  from assms(1,2) have r: "right_v e < length (vertices g)"
    "v_id (vertices g ! right_v e) = right_id e" and d: "distinct (map v_id (vertices g))"
    by (auto simp: wf_graph_def)
  from d have "map v_id (vertices g) ! right_v e = map v_id (vertices g) ! v
      \<longleftrightarrow> right_v e = v"
    by (rule nth_eq_iff_index_eq) (simp_all add: r(1) assms(3))
  with r assms(3) show ?thesis by simp
qed

lemma get_D_value_sum:
  assumes "wf_graph g" and "v < length (vertices g)"
  shows "get_D_value g (vertices g ! v) = (\<Sum>e\<leftarrow>edges g. d_term (vertices g) v e)"
proof -
  let ?V = "vertices g" and ?E = "edges g"
  let ?raw = "\<lambda>e. if partition_label (?V ! (if right_id e = v_id (?V ! v) then left_v e
                      else right_v e)) \<noteq> partition_label (?V ! v) then 1 else - 1 :: int"
  from assms have adj: "v_edges (?V ! v) = filter (\<lambda>j. incident v (?E ! j)) [0..<length ?E]"
    by (simp add: wf_graph_def)
  have "get_D_value g (?V ! v)
      = (\<Sum>j\<leftarrow>filter (\<lambda>j. incident v (?E ! j)) [0..<length ?E]. ?raw (?E ! j))"
    by (simp add: get_D_value_def adj Let_def)
  also have "\<dots> = (\<Sum>j\<leftarrow>[0..<length ?E]. if incident v (?E ! j) then ?raw (?E ! j) else 0)"
    by (rule sum_list_map_filter')
  also have "\<dots> = (\<Sum>e\<leftarrow>?E. if incident v e then ?raw e else 0)"
    by (rule sum_list_index [of "\<lambda>e. if incident v e then ?raw e else 0"])
  also have "\<dots> = (\<Sum>e\<leftarrow>?E. d_term ?V v e)"
  proof (rule sum_list_map_cong)
    fix e assume "e \<in> set ?E"
    from wf_graph_right_id [OF assms(1) this assms(2)]
    show "(if incident v e then ?raw e else 0) = d_term ?V v e"
      by (simp add: d_term_def)
  qed
  finally show ?thesis .
qed

lemma common_edges_sum:
  assumes "wf_graph g" and "a < length (vertices g)" and "b < length (vertices g)"
  shows "common_edges g a b = (\<Sum>e\<leftarrow>edges g. c_term a b e)"
proof -
  let ?V = "vertices g" and ?E = "edges g"
  let ?P = "\<lambda>j. incident a (?E ! j) \<and> incident b (?E ! j)"
  from assms have adj:
    "v_edges (?V ! a) = filter (\<lambda>j. incident a (?E ! j)) [0..<length ?E]"
    "v_edges (?V ! b) = filter (\<lambda>j. incident b (?E ! j)) [0..<length ?E]"
    by (simp_all add: wf_graph_def)
  have "set (v_edges (?V ! a)) \<inter> set (v_edges (?V ! b)) = set (filter ?P [0..<length ?E])"
    unfolding adj by auto
  then have "common_edges g a b = int (card (set (filter ?P [0..<length ?E])))"
    by (simp only: common_edges_def)
  also have "\<dots> = int (length (filter ?P [0..<length ?E]))"
    by (rule arg_cong [where f = int], rule distinct_card) simp
  also have "\<dots> = (\<Sum>j\<leftarrow>[0..<length ?E]. if ?P j then 1 else 0)"
    by (rule length_filter_sum)
  also have "\<dots> = (\<Sum>e\<leftarrow>?E. c_term a b e)"
    unfolding c_term_def by (rule sum_list_index [of "\<lambda>e. if incident a e \<and> incident b e then 1 else 0"])
  finally show ?thesis .
qed

lemma get_partition_cost_sum:
  "get_partition_cost g = (\<Sum>e\<leftarrow>edges g. cut_term (vertices g) e)"
  unfolding get_partition_cost_def cut_term_def by (rule length_filter_sum)

lemma label_cases: "l \<noteq> None \<Longrightarrow> l = Some A \<or> l = Some B"
  by (cases l) (auto intro: label.exhaust)

lemma swap_term:
  assumes lab: "\<And>v. v < n \<Longrightarrow> L v = Some A \<or> L v = Some B"
    and a: "a < n" "L a = Some A" and b: "b < n" "L b = Some B"
    and e: "x < n" "y < n" "x \<noteq> y"
    and L': "L' = (\<lambda>v. if v = b then Some A else if v = a then Some B else L v)"
  shows "(if L x \<noteq> L y then 1 else 0) - (if L' x \<noteq> L' y then 1 else (0::int))
     = (if x = a \<or> y = a then (if L (if y = a then x else y) \<noteq> L a then 1 else - 1) else 0)
     + (if x = b \<or> y = b then (if L (if y = b then x else y) \<noteq> L b then 1 else - 1) else 0)
     - 2 * (if (x = a \<or> y = a) \<and> (x = b \<or> y = b) then 1 else 0)"
proof -
  from a b have ab: "a \<noteq> b" by auto
  note lx = lab [OF e(1)] and ly = lab [OF e(2)]
  consider (ab) "x = a" "y = b" | (ba) "x = b" "y = a"
    | (xa) "x = a" "y \<noteq> b" | (ya) "y = a" "x \<noteq> b"
    | (xb) "x = b" "y \<noteq> a" | (yb) "y = b" "x \<noteq> a"
    | (none) "x \<noteq> a" "x \<noteq> b" "y \<noteq> a" "y \<noteq> b"
    by blast
  then show ?thesis
  proof cases
    case ab
    with a b \<open>a \<noteq> b\<close> show ?thesis by (simp add: L')
  next
    case ba
    with a b \<open>a \<noteq> b\<close> show ?thesis by (simp add: L')
  next
    case xa
    with e have "y \<noteq> a" by simp
    with xa a b \<open>a \<noteq> b\<close> ly show ?thesis by (auto simp: L')
  next
    case ya
    with e have "x \<noteq> a" by simp
    with ya a b \<open>a \<noteq> b\<close> lx show ?thesis by (auto simp: L')
  next
    case xb
    with e have "y \<noteq> b" by simp
    with xb a b \<open>a \<noteq> b\<close> ly show ?thesis by (auto simp: L')
  next
    case yb
    with e have "x \<noteq> b" by simp
    with yb a b \<open>a \<noteq> b\<close> lx show ?thesis by (auto simp: L')
  next
    case none
    then show ?thesis by (simp add: L')
  qed
qed

subsection \<open>The fall of the cut cost at a swap\<close>

lemma D_values_nth:
  assumes "distinct (map v_id (vertices g))" and "v < length (vertices g)"
  shows "D_values g (v_id (vertices g ! v)) = Some (get_D_value g (vertices g ! v))"
proof -
  let ?xs = "map (\<lambda>v. (v_id v, get_D_value g v)) (vertices g)"
  have fst: "map fst ?xs = map v_id (vertices g)" by (simp add: comp_def)
  from assms(1) have d: "distinct (map fst ?xs)" by (simp only: fst)
  then have d': "distinct (map fst (rev ?xs))" by (simp only: rev_map [symmetric] distinct_rev)
  from assms(2) have "(v_id (vertices g ! v), get_D_value g (vertices g ! v)) \<in> set (rev ?xs)"
    by (auto simp: image_iff intro!: bexI [of _ "vertices g ! v"])
  with d' have "map_of (rev ?xs) (v_id (vertices g ! v)) = Some (get_D_value g (vertices g ! v))"
    by (rule map_of_is_SomeI)
  then show ?thesis by (simp only: D_values_map_of)
qed

lemma set_label_fields [simp]:
  "v_id (set_label l v) = v_id v" "v_edges (set_label l v) = v_edges v"
  "partition_label (set_label l v) = Some l"
  by (simp_all add: set_label_def)

lemma wf_graph_relabel:
  assumes "wf_graph g" and "edges g' = edges g" and "length (vertices g') = length (vertices g)"
    and "\<And>v. v < length (vertices g) \<Longrightarrow> v_id (vertices g' ! v) = v_id (vertices g ! v)
           \<and> v_edges (vertices g' ! v) = v_edges (vertices g ! v)"
  shows "wf_graph g'"
proof -
  have "map v_id (vertices g') = map v_id (vertices g)"
    by (rule nth_equalityI) (simp_all add: assms(3,4))
  with assms show ?thesis by (simp add: wf_graph_def)
qed

lemma swap_labels_wf:
  assumes "wf_graph g" and "a \<noteq> b"
  shows "wf_graph (swap_labels g (a, b))"
  by (rule wf_graph_relabel [OF assms(1)]) (simp_all add: swap_labels_nth [OF _ assms(2)])

lemma initial_bisection_wf:
  assumes "wf_graph g"
  shows "wf_graph (initial_bisection g)"
  by (rule wf_graph_relabel [OF assms]) (simp_all add: initial_bisection_nth)

lemma labelled_nth: "labelled g \<longleftrightarrow> (\<forall>v < length (vertices g). partition_label (vertices g ! v) \<noteq> None)"
  by (auto simp: labelled_def all_set_conv_all_nth)

lemma swap_labels_labelled:
  assumes "labelled g" and "a \<noteq> b"
  shows "labelled (swap_labels g (a, b))"
  using assms(1) by (simp add: labelled_nth swap_labels_nth [OF _ assms(2)])

lemma initial_bisection_labelled:
  assumes "even (length (vertices g))"
  shows "labelled (initial_bisection g)"
proof -
  from assms have "2 * (length (vertices g) div 2) = length (vertices g)" by simp
  then show ?thesis by (simp add: labelled_nth initial_bisection_nth)
qed

lemma swap_cost:
  assumes wf: "wf_graph g" and lab: "labelled g"
    and a: "a \<in> set (group_refs A g)" and b: "b \<in> set (group_refs B g)"
  shows "get_partition_cost g - get_partition_cost (swap_labels g (a, b))
         = gain g (D_values g) a b"
proof -
  let ?V = "vertices g" and ?E = "edges g" and ?n = "length (vertices g)"
  let ?V' = "vertices (swap_labels g (a, b))"
  let ?L = "\<lambda>v. partition_label (?V ! v)"
  let ?L' = "\<lambda>v. if v = b then Some A else if v = a then Some B else ?L v"
  from a b have an: "a < ?n" and la: "?L a = Some A" and bn: "b < ?n" and lb: "?L b = Some B"
    by (simp_all add: group_refs_iff)
  then have ab: "a \<noteq> b" by auto
  have L: "?L v = Some A \<or> ?L v = Some B" if "v < ?n" for v
    using lab that by (intro label_cases) (simp add: labelled_nth)
  have L': "partition_label (?V' ! v) = ?L' v" if "v < ?n" for v
    using that by (simp add: swap_labels_nth [OF that ab])
  have pointwise: "cut_term ?V e - cut_term ?V' e = d_term ?V a e + d_term ?V b e - 2 * c_term a b e"
    if "e \<in> set ?E" for e
  proof -
    from wf that have x: "left_v e < ?n" and y: "right_v e < ?n" and xy: "left_v e \<noteq> right_v e"
      by (auto simp: wf_graph_def)
    from swap_term [of ?n ?L a b "left_v e" "right_v e" ?L', OF L an la bn lb x y xy refl]
    show ?thesis
      by (simp add: cut_term_def d_term_def c_term_def incident_def L' [OF x] L' [OF y])
  qed
  from wf have dist: "distinct (map v_id ?V)" by (simp add: wf_graph_def)
  have "get_partition_cost g - get_partition_cost (swap_labels g (a, b))
      = (\<Sum>e\<leftarrow>?E. cut_term ?V e) - (\<Sum>e\<leftarrow>?E. cut_term ?V' e)"
    by (simp add: get_partition_cost_sum)
  also have "\<dots> = (\<Sum>e\<leftarrow>?E. cut_term ?V e - cut_term ?V' e)"
    by (simp add: sum_list_subtractf)
  also have "\<dots> = (\<Sum>e\<leftarrow>?E. d_term ?V a e + d_term ?V b e - 2 * c_term a b e)"
    by (rule sum_list_map_cong) (rule pointwise)
  also have "\<dots> = (\<Sum>e\<leftarrow>?E. d_term ?V a e) + (\<Sum>e\<leftarrow>?E. d_term ?V b e)
                    - 2 * (\<Sum>e\<leftarrow>?E. c_term a b e)"
    by (simp add: sum_list_subtractf sum_list_addf sum_list_const_mult)
  also have "\<dots> = get_D_value g (?V ! a) + get_D_value g (?V ! b) - 2 * common_edges g a b"
    by (simp only: get_D_value_sum [OF wf an] get_D_value_sum [OF wf bn]
        common_edges_sum [OF wf an bn])
  also have "\<dots> = gain g (D_values g) a b"
    by (simp add: gain_def D_values_nth [OF dist an] D_values_nth [OF dist bn])
  finally show ?thesis .
qed

subsection \<open>The constructed graph is well formed\<close>

lemma add_edge_appends:
  assumes "\<And>k. k \<in> set (v_edges v) \<Longrightarrow> edge_ids (E ! k) \<noteq> (right_id (E ! m), left_id (E ! m))"
  shows "add_edge E v m = v\<lparr>v_edges := v_edges v @ [m]\<rparr>"
proof -
  have "\<not> list_ex (\<lambda>e. left_id (E ! e) = right_id (E ! m) \<and> right_id (E ! e) = left_id (E ! m))
          (v_edges v)"
    using assms by (auto simp: list_ex_iff edge_ids_def)
  then show ?thesis by (simp add: add_edge_def)
qed

lemma filter_incident_snoc:
  "filter (\<lambda>j. incident v ((E @ [e]) ! j)) [0..<Suc (length E)]
   = filter (\<lambda>j. incident v (E ! j)) [0..<length E] @ (if incident v e then [length E] else [])"
proof -
  have "filter (\<lambda>j. incident v ((E @ [e]) ! j)) [0..<length E]
      = filter (\<lambda>j. incident v (E ! j)) [0..<length E]"
    by (rule filter_cong) (simp_all add: nth_append)
  then show ?thesis by simp
qed

lemma link_edge_wf:
  assumes wf: "wf_graph g"
    and lv: "lv < length (vertices g)" "v_id (vertices g ! lv) = l"
    and rv: "rv < length (vertices g)" "v_id (vertices g ! rv) = r"
    and lr: "l \<noteq> r"
    and norev: "\<And>e. e \<in> set (edges g) \<Longrightarrow> edge_ids e \<noteq> (r, l)"
  shows "wf_graph (link_edge g l r lv rv)"
    and "map v_id (vertices (link_edge g l r lv rv)) = map v_id (vertices g)"
    and "map partition_label (vertices (link_edge g l r lv rv)) = map partition_label (vertices g)"
    and "edges (link_edge g l r lv rv)
         = edges g @ [\<lparr>left_id = l, right_id = r, left_v = lv, right_v = rv\<rparr>]"
proof -
  let ?V = "vertices g" and ?E = "edges g" and ?n = "length (vertices g)"
  let ?e = "\<lparr>left_id = l, right_id = r, left_v = lv, right_v = rv\<rparr>"
  let ?E' = "?E @ [?e]" and ?m = "length ?E"
  let ?g' = "link_edge g l r lv rv"
  from lv rv lr have ne: "lv \<noteq> rv" by auto
  have adj: "v_edges (?V ! v) = filter (\<lambda>j. incident v (?E ! j)) [0..<?m]" if "v < ?n" for v
    using wf that by (simp add: wf_graph_def)
  have app: "add_edge ?E' (?V ! v) ?m = (?V ! v)\<lparr>v_edges := v_edges (?V ! v) @ [?m]\<rparr>"
    if "v < ?n" for v
  proof (rule add_edge_appends)
    fix k assume "k \<in> set (v_edges (?V ! v))"
    then have "k < ?m" by (simp add: adj [OF that])
    then have "?E' ! k \<in> set ?E" by (simp add: nth_append)
    from norev [OF this] show "edge_ids (?E' ! k) \<noteq> (right_id (?E' ! ?m), left_id (?E' ! ?m))"
      by simp
  qed
  have V': "vertices ?g' = ?V[lv := (?V ! lv)\<lparr>v_edges := v_edges (?V ! lv) @ [?m]\<rparr>,
                            rv := (?V ! rv)\<lparr>v_edges := v_edges (?V ! rv) @ [?m]\<rparr>]"
    using ne lv(1) rv(1) by (simp add: link_edge_def Let_def app)
  show E': "edges ?g' = ?E'" by (simp add: link_edge_def Let_def)
  have len: "length (vertices ?g') = ?n" by (simp add: V')
  have nth: "vertices ?g' ! v =
      (if v = lv \<or> v = rv then (?V ! v)\<lparr>v_edges := v_edges (?V ! v) @ [?m]\<rparr> else ?V ! v)"
    if "v < ?n" for v
    using that ne by (auto simp: V' nth_list_update)
  show ids: "map v_id (vertices ?g') = map v_id ?V"
    by (rule nth_equalityI) (simp_all add: len nth)
  show "map partition_label (vertices ?g') = map partition_label ?V"
    by (rule nth_equalityI) (simp_all add: len nth)
  have vid: "v_id (vertices ?g' ! v) = v_id (?V ! v)" if "v < ?n" for v
    using that by (simp add: nth)
  show "wf_graph ?g'"
    unfolding wf_graph_def
  proof (intro conjI)
    from wf show "distinct (map v_id (vertices ?g'))" by (simp add: ids wf_graph_def)
  next
    have "left_v e < length (vertices ?g') \<and> right_v e < length (vertices ?g') \<and>
        left_v e \<noteq> right_v e \<and> v_id (vertices ?g' ! left_v e) = left_id e \<and>
        v_id (vertices ?g' ! right_v e) = right_id e" if "e \<in> set (edges ?g')" for e
    proof -
    from that consider "e \<in> set ?E" | "e = ?e" by (auto simp: E')
    then show ?thesis
    proof cases
      case 1
      with wf have "left_v e < ?n" "right_v e < ?n" "left_v e \<noteq> right_v e"
        "v_id (?V ! left_v e) = left_id e" "v_id (?V ! right_v e) = right_id e"
        by (auto simp: wf_graph_def)
      then show ?thesis by (simp add: len vid)
    next
      case 2
      with lv rv ne show ?thesis by (simp add: len vid)
    qed
    qed
    then show "\<forall>e\<in>set (edges ?g'). left_v e < length (vertices ?g') \<and>
        right_v e < length (vertices ?g') \<and>
        left_v e \<noteq> right_v e \<and> v_id (vertices ?g' ! left_v e) = left_id e \<and>
        v_id (vertices ?g' ! right_v e) = right_id e" by blast
  next
    have "v_edges (vertices ?g' ! v)
        = filter (\<lambda>j. incident v (edges ?g' ! j)) [0..<length (edges ?g')]"
      if "v < length (vertices ?g')" for v
    proof -
    from that have v: "v < ?n" by (simp add: len)
    have "filter (\<lambda>j. incident v (edges ?g' ! j)) [0..<length (edges ?g')]
        = filter (\<lambda>j. incident v (?E ! j)) [0..<?m] @ (if incident v ?e then [?m] else [])"
      unfolding E' using filter_incident_snoc [of v ?E ?e] by simp
    also have "\<dots> = v_edges (vertices ?g' ! v)"
      by (simp add: nth [OF v] adj [OF v] incident_def)
    finally show ?thesis by simp
    qed
    then show "\<forall>v<length (vertices ?g'). v_edges (vertices ?g' ! v)
        = filter (\<lambda>j. incident v (edges ?g' ! j)) [0..<length (edges ?g')]" by blast
  qed
qed

lemma link_edges_wf:
  assumes "link_edges d es g = Inr g'"
    and "\<And>x i. d x = Some i \<Longrightarrow> i < length (vertices g) \<and> v_id (vertices g ! i) = x"
    and "wf_graph g"
    and "\<And>l r. (l, r) \<in> set es \<Longrightarrow>
           (r, l) \<notin> set es \<and> (\<forall>e \<in> set (edges g). edge_ids e \<noteq> (r, l))"
  shows "wf_graph g' \<and> map v_id (vertices g') = map v_id (vertices g)
         \<and> map partition_label (vertices g') = map partition_label (vertices g)
         \<and> map edge_ids (edges g') = map edge_ids (edges g) @ es"
  using assms
proof (induction es arbitrary: g)
  case Nil
  then show ?case by simp
next
  case (Cons x es)
  obtain l r where x: "x = (l, r)" by (cases x)
  from Cons.prems(1) obtain lv rv where lv: "d l = Some lv" and rv: "d r = Some rv"
    by (auto simp: x split: option.splits)
  let ?g1 = "link_edge g l r lv rv"
  from Cons.prems(1) lv rv have run: "link_edges d es ?g1 = Inr g'" by (simp add: x)
  from Cons.prems(4) [of l r] have lr: "l \<noteq> r"
    and norev: "\<And>e. e \<in> set (edges g) \<Longrightarrow> edge_ids e \<noteq> (r, l)"
    by (auto simp: x)
  note lvn = Cons.prems(2) [OF lv] and rvn = Cons.prems(2) [OF rv]
  note step = link_edge_wf [OF Cons.prems(3) conjunct1 [OF lvn] conjunct2 [OF lvn]
      conjunct1 [OF rvn] conjunct2 [OF rvn] lr norev]
  have len: "length (vertices ?g1) = length (vertices g)"
    using arg_cong [OF step(2), of length] by simp
  have d1: "i < length (vertices ?g1) \<and> v_id (vertices ?g1 ! i) = y" if "d y = Some i" for y i
  proof -
    from Cons.prems(2) [OF that] have i: "i < length (vertices g)" "v_id (vertices g ! i) = y"
      by simp_all
    from i(1) have "map v_id (vertices ?g1) ! i = map v_id (vertices g) ! i"
      by (simp only: step(2))
    with i show ?thesis by (simp add: len)
  qed
  have h1: "(r', l') \<notin> set es \<and> (\<forall>e \<in> set (edges ?g1). edge_ids e \<noteq> (r', l'))"
    if "(l', r') \<in> set es" for l' r'
  proof -
    from that have "(l', r') \<in> set (x # es)" by simp
    from Cons.prems(4) [OF this] show ?thesis
      by (auto simp: step(4) edge_ids_def x)
  qed
  from Cons.IH [OF run d1 step(1) h1]
  show ?case by (simp add: step x edge_ids_def)
qed

lemma Graph_init_wf:
  assumes "wf_input vs es" and "Graph_init vs es = Inr g"
  shows "wf_graph g" and "map v_id (vertices g) = vs"
    and "\<forall>v \<in> set (vertices g). partition_label v = None"
    and "map edge_ids (edges g) = es"
proof -
  let ?V = "map Vertex_init vs"
  let ?g0 = "\<lparr>vertices = ?V, edges = []\<rparr>"
  have ids: "map v_id ?V = vs" by (simp add: Vertex_init_def comp_def)
  from assms(1) have "distinct (map v_id ?V)" by (simp only: ids wf_input_def)
  then have wf0: "wf_graph ?g0" by (simp add: wf_graph_def Vertex_init_def)
  from assms(2) have run: "link_edges (vertex_dict ?V) es ?g0 = Inr g"
    by (simp add: Graph_init_def Let_def)
  have d: "i < length (vertices ?g0) \<and> v_id (vertices ?g0 ! i) = x"
    if "vertex_dict ?V x = Some i" for x i
    using vertex_dict_Some [OF that] by auto
  have h: "(r, l) \<notin> set es \<and> (\<forall>e \<in> set (edges ?g0). edge_ids e \<noteq> (r, l))"
    if "(l, r) \<in> set es" for l r
    using assms(1) that by (auto simp: wf_input_def)
  have ids': "map (v_id \<circ> Vertex_init) vs = vs" by (simp add: Vertex_init_def comp_def)
  from link_edges_wf [OF run d wf0 h]
  have r: "wf_graph g" "map v_id (vertices g) = vs"
    "map partition_label (vertices g) = map partition_label ?V" "map edge_ids (edges g) = es"
    by (simp_all add: ids')
  from r show "wf_graph g" "map v_id (vertices g) = vs" "map edge_ids (edges g) = es"
    by simp_all
  have "set (map partition_label (vertices g)) \<subseteq> {None}"
    unfolding r(3) by (auto simp: Vertex_init_def)
  then show "\<forall>v \<in> set (vertices g). partition_label v = None" by auto
qed

subsection \<open>The passes keep the graph well formed\<close>

lemma select_swap_inv:
  assumes "kl_inv g" and "select_swap g = Inr (Some s)"
  shows "kl_inv (s_graph s)"
    and "get_partition_cost g - get_partition_cost (s_graph s) = s_max_gain s"
    and "0 < s_max_gain s"
proof -
  obtain a b where p: "s_pair s = (a, b)" by (cases "s_pair s")
  from select_swap_pair [OF assms(2)] have a: "a \<in> set (group_refs A g)"
    and b: "b \<in> set (group_refs B g)" and m: "s_max_gain s = gain g (D_values g) a b"
    by (simp_all add: p)
  from a b have ab: "a \<noteq> b" by (auto simp: group_refs_iff)
  from select_swap_SomeD(3) [OF assms(2)] have g': "s_graph s = swap_labels g (a, b)"
    by (simp add: p)
  from assms(1) have wf: "wf_graph g" and lab: "labelled g" by (simp_all add: kl_inv_def)
  show "kl_inv (s_graph s)"
    by (simp add: kl_inv_def g' swap_labels_wf [OF wf ab] swap_labels_labelled [OF lab ab])
  show "get_partition_cost g - get_partition_cost (s_graph s) = s_max_gain s"
    by (simp only: g' m swap_cost [OF wf lab a b])
  show "0 < s_max_gain s" by (rule select_swap_SomeD(2) [OF assms(2)])
qed

lemma outer_trace_inv:
  assumes "kl_inv (graph st)" and "st' \<in> set (outer_trace k st)"
  shows "kl_inv (graph st')"
    and "get_partition_cost (graph st') + total_gain st'
         = get_partition_cost (graph st) + total_gain st"
  using assms
proof (induction k arbitrary: st)
  case 0
  {
    case 1 then show ?case by simp
  next
    case 2 then show ?case by simp
  }
next
  case (Suc k)
  {
    case 1
    show ?case
    proof (cases st rule: iteration_cases)
      case (error e)
      with 1 show ?thesis by simp
    next
      case break
      with 1 show ?thesis by simp
    next
      case (swap s)
      let ?st1 = "\<lparr>graph = s_graph s, total_gain = total_gain st + s_max_gain s,
                    D_vals = update_D_values s\<rparr>"
      have inv1: "kl_inv (graph ?st1)" using select_swap_inv(1) [OF 1(1) swap(1)] by simp
      from 1(2) swap(2) have "st' = ?st1 \<or> st' \<in> set (outer_trace k ?st1)" by simp
      then show ?thesis using inv1 Suc.IH(1) [OF inv1] by blast
    qed
  next
    case 2
    show ?case
    proof (cases st rule: iteration_cases)
      case (error e)
      with 2 show ?thesis by simp
    next
      case break
      with 2 show ?thesis by simp
    next
      case (swap s)
      let ?st1 = "\<lparr>graph = s_graph s, total_gain = total_gain st + s_max_gain s,
                    D_vals = update_D_values s\<rparr>"
      have inv1: "kl_inv (graph ?st1)" using select_swap_inv(1) [OF 2(1) swap(1)] by simp
      have c1: "get_partition_cost (graph ?st1) + total_gain ?st1
                = get_partition_cost (graph st) + total_gain st"
        using select_swap_inv(2) [OF 2(1) swap(1)] by simp
      from 2(2) swap(2) have "st' = ?st1 \<or> st' \<in> set (outer_trace k ?st1)" by simp
      then show ?thesis using c1 Suc.IH(2) [OF inv1] by auto
    qed
  }
qed

lemma outer_trace_costs:
  assumes "kl_inv (graph st)"
  shows "sorted_wrt (\<lambda>c c'. c' \<le> c)
           (map (\<lambda>st. get_partition_cost (graph st)) (st # outer_trace k st))"
  using assms
proof (induction k arbitrary: st)
  case 0
  show ?case by simp
next
  case (Suc k)
  show ?case
  proof (cases st rule: iteration_cases)
    case (error e)
    then show ?thesis by simp
  next
    case break
    then show ?thesis by simp
  next
    case (swap s)
    let ?st1 = "\<lparr>graph = s_graph s, total_gain = total_gain st + s_max_gain s,
                  D_vals = update_D_values s\<rparr>"
    let ?c = "\<lambda>st. get_partition_cost (graph st)"
    note inv = select_swap_inv [OF Suc.prems swap(1)]
    have inv1: "kl_inv (graph ?st1)" using inv(1) by simp
    from inv(2,3) have le: "?c ?st1 \<le> ?c st" by simp
    have tail: "sorted_wrt (\<lambda>c c'. c' \<le> c) (map ?c (?st1 # outer_trace k ?st1))"
      by (rule Suc.IH [OF inv1])
    then have "\<forall>c' \<in> set (map ?c (outer_trace k ?st1)). c' \<le> ?c ?st1" by simp
    with le have "\<forall>c' \<in> set (map ?c (?st1 # outer_trace k ?st1)). c' \<le> ?c st" by auto
    with tail show ?thesis by (simp add: swap(2))
  qed
qed

lemma initial_state_inv:
  assumes "wf_input vs es" and "even (length vs)" and "Graph_init vs es = Inr g"
  shows "kl_inv (graph (initial_state g))"
proof -
  note wf = Graph_init_wf [OF assms(1,3)]
  from wf(2) have "length (vertices g) = length vs" using arg_cong [of _ _ length] by fastforce
  with assms(2) have "even (length (vertices g))" by simp
  then show ?thesis
    by (simp add: kl_inv_def initial_state_def initial_bisection_wf [OF wf(1)]
        initial_bisection_labelled)
qed

text \<open>
  Gain consistency on a well-formed input with an even number of vertices: at every state
  the loop reaches, the swap the next pass selects has the gain \<open>D(a) + D(b) - 2 c\<close>,
  positive, and flipping the two labels lowers the cut cost by exactly that gain.
\<close>

theorem wf_gain_is_cost_change:
  assumes "wf_input vs es" and "even (length vs)" and "Graph_init vs es = Inr g"
    and "st \<in> set (initial_state g # outer_trace (length (vertices g) div 2) (initial_state g))"
    and "select_swap (graph st) = Inr (Some s)"
  shows "get_partition_cost (graph st) - get_partition_cost (s_graph s) = s_max_gain s
         \<and> s_max_gain s = gain (graph st) (D_values (graph st)) (fst (s_pair s)) (snd (s_pair s))
         \<and> 0 < s_max_gain s"
proof -
  note inv0 = initial_state_inv [OF assms(1-3)]
  from assms(4) have "kl_inv (graph st)"
    using inv0 outer_trace_inv(1) [OF inv0] by auto
  from select_swap_inv(2,3) [OF this assms(5)] select_swap_pair(3) [OF assms(5)]
  show ?thesis by simp
qed

text \<open>
  On such an input the cut cost after each pass is at most the cost before it.
\<close>

theorem wf_cut_cost_never_increases:
  assumes "wf_input vs es" and "even (length vs)" and "Graph_init vs es = Inr g"
  shows "sorted_wrt (\<lambda>c c'. c' \<le> c) (pass_costs g)"
  unfolding pass_costs_def
  by (rule outer_trace_costs) (rule initial_state_inv [OF assms])

text \<open>
  On such an input \<^verbatim>\<open>total_gain\<close> is, at the end, the cut cost of the initial
  split minus the final cut cost.
\<close>

theorem wf_total_gain_is_cost_reduction:
  assumes "wf_input vs es" and "even (length vs)" and "Graph_init vs es = Inr g"
    and "partition_state g = Inr st"
  shows "get_partition_cost (initial_bisection g) - get_partition_cost (graph st) = total_gain st"
proof -
  let ?st0 = "initial_state g" and ?k = "length (vertices g) div 2"
  note inv0 = initial_state_inv [OF assms(1-3)]
  from assms(4) have "st = last (?st0 # outer_trace ?k ?st0)"
    unfolding partition_state_def by (rule outer_loop_last)
  then have "st = ?st0 \<or> st \<in> set (outer_trace ?k ?st0)"
    by (cases "outer_trace ?k ?st0 = []") (auto simp del: outer_trace.simps)
  then have "get_partition_cost (graph st) + total_gain st
             = get_partition_cost (graph ?st0) + total_gain ?st0"
    using outer_trace_inv(2) [OF inv0] by blast
  then show ?thesis by (simp add: initial_state_def)
qed

subsection \<open>The groups for an even number of vertices\<close>

lemma map_filter_by_index:
  "map f (filter Q V) = map (\<lambda>k. f (V ! k)) (filter (\<lambda>k. Q (V ! k)) [0..<length V])"
proof -
  have "filter Q (map ((!) V) [0..<length V])
      = map ((!) V) (filter (Q \<circ> (!) V) [0..<length V])"
    by (rule filter_map)
  then have "filter Q V = map ((!) V) (filter (\<lambda>k. Q (V ! k)) [0..<length V])"
    by (simp add: map_nth comp_def)
  then have "map f (filter Q V) = map f (map ((!) V) (filter (\<lambda>k. Q (V ! k)) [0..<length V]))"
    by (rule arg_cong)
  then show ?thesis by (simp add: comp_def)
qed

lemma group_ids_refs: "group_ids l g = map (\<lambda>v. v_id (vertices g ! v)) (group_refs l g)"
  unfolding group_ids_def group_refs_def by (rule map_filter_by_index)

lemma length_group_refs: "length (group_refs l g) = card (set (group_refs l g))"
  by (rule distinct_card [symmetric]) (simp add: group_refs_def)

lemma set_group_refs:
  "set (group_refs l g) = {v. v < length (vertices g) \<and> partition_label (vertices g ! v) = Some l}"
  by (auto simp: group_refs_iff)

lemma initial_bisection_group_sizes:
  assumes "even (length (vertices g))"
  shows "length (group_refs A (initial_bisection g)) = length (vertices g) div 2"
    and "length (group_refs B (initial_bisection g)) = length (vertices g) div 2"
proof -
  let ?n = "length (vertices g)" and ?h = "length (vertices g) div 2"
  from assms have n: "2 * ?h = ?n" by simp
  have lab: "partition_label (vertices (initial_bisection g) ! v)
             = (if v < ?h then Some A else Some B)" if "v < ?n" for v
    using that n by (simp add: initial_bisection_nth [OF that])
  have "v \<in> set (group_refs A (initial_bisection g)) \<longleftrightarrow> v \<in> {0..<?h}" for v
  proof (cases "v < ?n")
    case True
    then show ?thesis by (simp add: group_refs_iff lab)
  next
    case False
    with n show ?thesis by (simp add: group_refs_iff)
  qed
  then have "set (group_refs A (initial_bisection g)) = {0..<?h}" by blast
  then show "length (group_refs A (initial_bisection g)) = ?h"
    by (simp add: length_group_refs)
  have "v \<in> set (group_refs B (initial_bisection g)) \<longleftrightarrow> v \<in> {?h..<?n}" for v
  proof (cases "v < ?n")
    case True
    then show ?thesis by (simp add: group_refs_iff lab)
  next
    case False
    then show ?thesis by (simp add: group_refs_iff)
  qed
  then have "set (group_refs B (initial_bisection g)) = {?h..<?n}" by blast
  then have "length (group_refs B (initial_bisection g)) = ?n - ?h"
    by (simp add: length_group_refs)
  with n show "length (group_refs B (initial_bisection g)) = ?h" by linarith
qed

lemma card_swap_elem:
  assumes "x \<in> set xs" and "y \<notin> set xs"
  shows "card (insert y (set xs - {x})) = card (set xs)"
proof -
  have "card (insert y (set xs - {x})) = Suc (card (set xs - {x}))"
    by (rule card_insert_disjoint) (use assms(2) in auto)
  also have "card (set xs - {x}) = card (set xs) - 1"
    by (rule card_Diff_singleton) (rule assms(1))
  also have "Suc (card (set xs) - 1) = card (set xs)"
    using assms(1) card_gt_0_iff [of "set xs"] by fastforce
  finally show ?thesis .
qed

lemma swap_labels_group_sizes:
  assumes a: "a \<in> set (group_refs A g)" and b: "b \<in> set (group_refs B g)"
  shows "length (group_refs A (swap_labels g (a, b))) = length (group_refs A g)"
    and "length (group_refs B (swap_labels g (a, b))) = length (group_refs B g)"
proof -
  let ?g' = "swap_labels g (a, b)" and ?n = "length (vertices g)"
  from a b have an: "a < ?n" and bn: "b < ?n"
    and ab: "a \<noteq> b" and anb: "a \<notin> set (group_refs B g)" and bna: "b \<notin> set (group_refs A g)"
    by (auto simp: group_refs_iff)
  have lab: "partition_label (vertices ?g' ! v)
      = (if v = b then Some A else if v = a then Some B else partition_label (vertices g ! v))"
    if "v < ?n" for v
    by (simp add: swap_labels_nth [OF that ab])
  have "v \<in> set (group_refs l ?g') \<longleftrightarrow>
        v < ?n \<and> (if v = b then l = A else if v = a then l = B
                   else partition_label (vertices g ! v) = Some l)" for v l
  proof (cases "v < ?n")
    case True
    then show ?thesis by (auto simp: group_refs_iff lab)
  next
    case False
    then show ?thesis by (simp add: group_refs_iff)
  qed
  note mem = this
  have "v \<in> set (group_refs A ?g') \<longleftrightarrow> v \<in> insert b (set (group_refs A g) - {a})" for v
    unfolding mem using bn ab by (auto simp: group_refs_iff)
  then have A': "set (group_refs A ?g') = insert b (set (group_refs A g) - {a})" by blast
  have "v \<in> set (group_refs B ?g') \<longleftrightarrow> v \<in> insert a (set (group_refs B g) - {b})" for v
    unfolding mem using an ab by (auto simp: group_refs_iff)
  then have B': "set (group_refs B ?g') = insert a (set (group_refs B g) - {b})" by blast
  have "card (insert b (set (group_refs A g) - {a})) = card (set (group_refs A g))"
    using a bna by (rule card_swap_elem)
  then show "length (group_refs A ?g') = length (group_refs A g)"
    by (simp only: length_group_refs A')
  have "card (insert a (set (group_refs B g) - {b})) = card (set (group_refs B g))"
    using b anb by (rule card_swap_elem)
  then show "length (group_refs B ?g') = length (group_refs B g)"
    by (simp only: length_group_refs B')
qed

lemma select_swap_balanced:
  assumes "balanced h g" and "select_swap g = Inr (Some s)"
  shows "balanced h (s_graph s)"
proof -
  obtain a b where p: "s_pair s = (a, b)" by (cases "s_pair s")
  from select_swap_pair(1,2) [OF assms(2)] have a: "a \<in> set (group_refs A g)"
    and b: "b \<in> set (group_refs B g)" by (simp_all add: p)
  from a b have ab: "a \<noteq> b" by (auto simp: group_refs_iff)
  from select_swap_SomeD(3) [OF assms(2)] have g': "s_graph s = swap_labels g (a, b)"
    by (simp add: p)
  from assms(1) show ?thesis
    by (simp add: balanced_def g' swap_labels_group_sizes [OF a b] swap_labels_labelled [OF _ ab])
qed

lemma outer_trace_balanced:
  assumes "balanced h (graph st)" and "st' \<in> set (outer_trace k st)"
  shows "balanced h (graph st')"
  using assms
proof (induction k arbitrary: st)
  case 0
  then show ?case by simp
next
  case (Suc k)
  show ?case
  proof (cases st rule: iteration_cases)
    case (error e)
    with Suc.prems show ?thesis by simp
  next
    case break
    with Suc.prems show ?thesis by simp
  next
    case (swap s)
    let ?st1 = "\<lparr>graph = s_graph s, total_gain = total_gain st + s_max_gain s,
                  D_vals = update_D_values s\<rparr>"
    have b1: "balanced h (graph ?st1)"
      using select_swap_balanced [OF Suc.prems(1) swap(1)] by simp
    from Suc.prems(2) swap(2) have "st' = ?st1 \<or> st' \<in> set (outer_trace k ?st1)" by simp
    then show ?thesis using b1 Suc.IH [OF b1] by blast
  qed
qed

lemma labelled_groups:
  assumes "labelled g" and "v < length (vertices g)"
  shows "(v \<in> set (group_refs A g)) \<noteq> (v \<in> set (group_refs B g))"
proof -
  from assms have "partition_label (vertices g ! v) \<noteq> None" by (simp add: labelled_nth)
  from label_cases [OF this] assms(2) show ?thesis by (auto simp: group_refs_iff)
qed

text \<open>
  For every graph with an even number of vertices, at the initial split and after every
  pass: each group holds half of the vertices, and every vertex is in exactly one group.
\<close>

theorem even_split_is_conserved:
  assumes "even (length (vertices g))"
    and "st \<in> set (initial_state g # outer_trace (length (vertices g) div 2) (initial_state g))"
  shows "length (group_ids A (graph st)) = length (vertices g) div 2
       \<and> length (group_ids B (graph st)) = length (vertices g) div 2
       \<and> length (group_ids A (graph st)) + length (group_ids B (graph st)) = length (vertices g)
       \<and> list_all (\<lambda>v. (v \<in> set (group_refs A (graph st))) \<noteq> (v \<in> set (group_refs B (graph st))))
           [0..<length (vertices (graph st))]"
proof -
  let ?h = "length (vertices g) div 2"
  have "balanced ?h (graph (initial_state g))"
    by (simp add: balanced_def initial_state_def initial_bisection_group_sizes [OF assms(1)]
        initial_bisection_labelled [OF assms(1)])
  with assms(2) have b: "balanced ?h (graph st)"
    using outer_trace_balanced [of ?h "initial_state g" st ?h] by auto
  then have "labelled (graph st)" by (simp add: balanced_def)
  then have "(v \<in> set (group_refs A (graph st))) \<noteq> (v \<in> set (group_refs B (graph st)))"
    if "v < length (vertices (graph st))" for v
    using that by (rule labelled_groups)
  then have "list_all (\<lambda>v. (v \<in> set (group_refs A (graph st))) \<noteq> (v \<in> set (group_refs B (graph st))))
           [0..<length (vertices (graph st))]"
    unfolding list_all_iff by simp
  moreover from assms(1) have "?h + ?h = length (vertices g)" by presburger
  ultimately show ?thesis using b by (simp add: balanced_def group_ids_refs)
qed

subsection \<open>An example\<close>

text \<open>
  The two disjoint edges 1-3 and 2-4 on the vertex list 1, 2, 3, 4 are a well-formed
  input: the first pass swaps vertices 1 and 4 with gain 2, the cut cost falls from 2 to
  0, and the second pass breaks.
\<close>

lemma ties4_built: "Graph_init [1, 2, 3, 4] [(1, 3), (2, 4)] = Inr ties4"
  by code_simp

lemma ties4_wf_input: "wf_input [1, 2, 3, 4] [(1, 3), (2, 4)]"
  by (simp add: wf_input_def)

theorem ties4_run:
  "pass_costs ties4 = [2, 0, 0]
   \<and> sorted_wrt (\<lambda>c c'. c' \<le> c) (pass_costs ties4)
   \<and> map_sum id total_gain (partition_state ties4) = Inr 2
   \<and> get_partition_cost (initial_bisection ties4) = 2
   \<and> partition_kl ties4 = Inr (''0'', [2, 4], [1, 3])"
proof -
  have e: "even (length [1, 2, 3, 4 :: int])" by simp
  have "pass_costs ties4 = [2, 0, 0]" by code_simp
  moreover have "map_sum id total_gain (partition_state ties4) = Inr 2" by code_simp
  moreover have "get_partition_cost (initial_bisection ties4) = 2" by code_simp
  moreover have "partition_kl ties4 = Inr (''0'', [2, 4], [1, 3])" by code_simp
  moreover note wf_cut_cost_never_increases [OF ties4_wf_input e ties4_built]
  ultimately show ?thesis by blast
qed

section \<open>Scenarios\<close>

text \<open>
  C7. The graph with no vertex, which has no edge (an edge on an empty vertex list makes
  the construction raise): the outer loop enters no pass, and \<^verbatim>\<open>partition\<close> returns
  the cut size \<^verbatim>\<open>"0"\<close> and two empty groups, with no exception.
\<close>

theorem empty_graph_partition:
  "Graph_init [] [] = Inr \<lparr>vertices = [], edges = []\<rparr>
   \<and> Graph_init [] ((l, r) # es) = Inl (KeyError l)
   \<and> outer_trace (length (vertices \<lparr>vertices = [], edges = []\<rparr>) div 2)
        (initial_state \<lparr>vertices = [], edges = []\<rparr>) = []
   \<and> partition_kl \<lparr>vertices = [], edges = []\<rparr> = Inr (''0'', [], [])
   \<and> kl_run [] [] = Inr (''0'', [], [])"
  by (simp add: Graph_init_def vertex_dict_def kl_run_def partition_kl_def
      partition_state_def initial_state_def initial_bisection_def get_partition_cost_def
      group_ids_def str_def str_nat.simps)

text \<open>
  C1, as claimed, fails: on the 4-cycle the run ends with the cut size \<^verbatim>\<open>"2"\<close>, not 0,
  and with the groups of the initial split.
\<close>

theorem cycle4_final_cut_counterexample:
  "kl_run [1, 2, 3, 4] [(1, 2), (2, 3), (3, 4), (4, 1)] = Inr (''2'', [1, 2], [3, 4])"
  by code_simp

text \<open>
  C1, amended. For the 4-cycle with edges (1,2), (2,3), (3,4), (4,1) and the vertices in
  first-seen order 1, 2, 3, 4, the run starts from the split A = {1, 2}, B = {3, 4} with
  cut cost 2; the four candidate pairs have the gains 0, -2, -2, 0, so the first pass
  breaks without a swap, and the run ends with cut cost 2 and the groups unchanged.
\<close>

theorem cycle4_scenario:
  "seen_vertices [(1, 2), (2, 3), (3, 4), (4, 1)] = [1, 2, 3, 4]
   \<and> Graph_init [1, 2, 3, 4] [(1, 2), (2, 3), (3, 4), (4, 1)] = Inr cycle4
   \<and> group_ids A (initial_bisection cycle4) = [1, 2]
   \<and> group_ids B (initial_bisection cycle4) = [3, 4]
   \<and> get_partition_cost (initial_bisection cycle4) = 2
   \<and> gains (initial_bisection cycle4) (D_values (initial_bisection cycle4))
        (group_refs A (initial_bisection cycle4)) (group_refs B (initial_bisection cycle4))
      = [((0, 2), 0), ((0, 3), - 2), ((1, 2), - 2), ((1, 3), 0)]
   \<and> map_sum id (map_option s_pair) (select_swap (initial_bisection cycle4)) = Inr None
   \<and> map_sum id (\<lambda>st. get_partition_cost (graph st)) (partition_state cycle4) = Inr 2
   \<and> partition_kl cycle4 = Inr (''2'', [1, 2], [3, 4])"
  by code_simp

text \<open>
  Why no run on the 4-cycle can end with cut 0: of the sixteen labellings of its four
  vertices, the six with two vertices in each group cut two edges or four.
\<close>

lemma cycle4_splits:
  "filter (\<lambda>ls. length (filter (\<lambda>l. l = A) ls) = 2) (List.n_lists 4 [A, B])
     = [[B, B, A, A], [B, A, B, A], [A, B, B, A], [B, A, A, B], [A, B, A, B], [A, A, B, B]]
   \<and> map (\<lambda>ls. get_partition_cost (with_labels cycle4 ls))
         (filter (\<lambda>ls. length (filter (\<lambda>l. l = A) ls) = 2) (List.n_lists 4 [A, B]))
     = [2, 4, 2, 2, 4, 2]"
  by code_simp

text \<open>
  C2 at three vertices: the first loop of \<^verbatim>\<open>partition\<close> labels vertex 1 with A and
  vertex 2 with B and leaves vertex 3 with the label \<^verbatim>\<open>None\<close>. The vertex stays
  unlabelled through the run, and the returned groups hold two of the three vertices.
\<close>

theorem odd_bisection_leaves_last_vertex_unlabelled:
  "seen_vertices [(1, 2), (2, 3)] = [1, 2, 3]
   \<and> Graph_init [1, 2, 3] [(1, 2), (2, 3)] = Inr path3
   \<and> map partition_label (vertices (initial_bisection path3)) = [Some A, Some B, None]
   \<and> map_sum id (\<lambda>st. map partition_label (vertices (graph st))) (partition_state path3)
      = Inr [Some B, Some A, None]
   \<and> partition_kl path3 = Inr (''2'', [2], [1])"
  by code_simp

text \<open>
  C3 at the edge list (1,2), (1,2): both edges enter the adjacency list of vertex 1 and
  of vertex 2. \<^verbatim>\<open>add_edge\<close> looks for an edge with the ids the other way round only,
  so the pair (1,2), (2,1) leaves one edge in each adjacency list, and (1,2), (1,2) two.
\<close>

theorem same_orientation_duplicates_kept:
  "Graph_init [1, 2] [(1, 2), (1, 2)]
     = Inr \<lparr>vertices =
              [\<lparr>v_id = 1, v_edges = [0, 1], partition_label = None\<rparr>,
               \<lparr>v_id = 2, v_edges = [0, 1], partition_label = None\<rparr>],
            edges =
              [\<lparr>left_id = 1, right_id = 2, left_v = 0, right_v = 1\<rparr>,
               \<lparr>left_id = 1, right_id = 2, left_v = 0, right_v = 1\<rparr>]\<rparr>
   \<and> Graph_init [1, 2] [(1, 2), (2, 1)]
     = Inr \<lparr>vertices =
              [\<lparr>v_id = 1, v_edges = [0], partition_label = None\<rparr>,
               \<lparr>v_id = 2, v_edges = [0], partition_label = None\<rparr>],
            edges =
              [\<lparr>left_id = 1, right_id = 2, left_v = 0, right_v = 1\<rparr>,
               \<lparr>left_id = 2, right_id = 1, left_v = 1, right_v = 0\<rparr>]\<rparr>"
  by code_simp

text \<open>
  C4 at two inputs. On the path 1-2, 2-3 the first pass swaps vertices 1 and 2 with gain
  1, and the cut cost is 2 before and 2 after: the edge to the unlabelled vertex 3 counts
  in the D value of vertex 2 and stays cut. On the lines 1 2, 1 3, 3 1, 2 4, 4 2 the
  first pass swaps vertices 1 and 4 with gain 1, and the cut cost falls from 4 to 1: the
  edge list holds 1-3 and 2-4 twice, the adjacency lists once.
\<close>

theorem gain_differs_from_cost_change:
  "get_partition_cost (initial_bisection path3) = 2
   \<and> map_sum id (map_option (\<lambda>s. (s_pair s, s_max_gain s, get_partition_cost (s_graph s))))
        (select_swap (initial_bisection path3)) = Inr (Some ((0, 1), 1, 2))
   \<and> seen_vertices [(1, 2), (1, 3), (3, 1), (2, 4), (4, 2)] = [1, 2, 3, 4]
   \<and> map_sum id (\<lambda>g. get_partition_cost (initial_bisection g))
        (Graph_init [1, 2, 3, 4] [(1, 2), (1, 3), (3, 1), (2, 4), (4, 2)]) = Inr 4
   \<and> map_sum id (\<lambda>g. map_sum id
          (map_option (\<lambda>s. (s_pair s, s_max_gain s, get_partition_cost (s_graph s))))
          (select_swap (initial_bisection g)))
        (Graph_init [1, 2, 3, 4] [(1, 2), (1, 3), (3, 1), (2, 4), (4, 2)])
      = Inr (Inr (Some ((0, 3), 1, 1)))"
  by code_simp

text \<open>
  C5 at nine vertices: the cut cost is 6 after the initial split and 4, 5, 4, 5 after the
  four passes, each of which swaps a pair with a positive gain (2, 1, 3, 1). The ninth
  vertex is unlabelled, and its edges to vertices 1 and 8 count in their D values.
\<close>

theorem cut_cost_increases:
  "seen_vertices lines9 = [1, 2, 3, 4, 5, 6, 7, 8, 9]
   \<and> map_sum id pass_costs (Graph_init [1, 2, 3, 4, 5, 6, 7, 8, 9] lines9)
      = Inr [6, 4, 5, 4, 5]
   \<and> map_sum id (\<lambda>g. map total_gain (outer_trace 4 (initial_state g)))
        (Graph_init [1, 2, 3, 4, 5, 6, 7, 8, 9] lines9) = Inr [2, 3, 6, 7]
   \<and> kl_run [1, 2, 3, 4, 5, 6, 7, 8, 9] lines9 = Inr (''5'', [2, 4, 5, 8], [1, 3, 6, 7])"
  by code_simp

text \<open>
  Two more runs: a single edge 1-2, where the only candidate has gain 0 and the cut stays
  1; and the two edges 1-2 and 3-4, where the initial split cuts nothing and the first
  pass breaks.
\<close>

lemma single_edge_run:
  "kl_run [1, 2] [(1, 2)] = Inr (''1'', [1], [2])
   \<and> map_sum id pass_costs (Graph_init [1, 2] [(1, 2)]) = Inr [1, 1]"
  by code_simp

lemma two_components_run:
  "kl_run [1, 2, 3, 4] [(1, 2), (3, 4)] = Inr (''0'', [1, 2], [3, 4])
   \<and> map_sum id pass_costs (Graph_init [1, 2, 3, 4] [(1, 2), (3, 4)]) = Inr [0, 0]"
  by code_simp

end
